theory Spec2Isabelle
  imports Main "HOL-Library.Product_Lexorder" "HOL-Library.AList"
begin

section \<open>The cache server's startup: \<open>tools/cache/rpc_server_main.go\<close>\<close>

subsection \<open>Options\<close>

text \<open>
  The \<open>opts\<close> struct of the source, one record per flag group. Go's \<open>int\<close> is
  modelled by \<open>int\<close>: the program only compares these values with constants and prints
  them, so no arithmetic can overflow. \<open>cli.ByteSize\<close> and \<open>cli.Duration\<close> are
  passed on to \<open>server.NewCache\<close> unchanged and are kept as numbers.
\<close>

record clean_flags =
  LowWaterMark :: nat
  HighWaterMark :: nat
  CleanFrequency :: int
  MaxArtifactAge :: int

record tls_flags =
  KeyFile :: string
  CertFile :: string
  CACertFile :: string
  WritableCerts :: string
  ReadonlyCerts :: string

record cluster_flags =
  ClusterPort :: int
  ClusterAddresses :: string
  SeedCluster :: bool
  ClusterSize :: int
  NodeName :: string
  SeedIf :: string
  AdvertiseAddr :: string

record opts =
  Port :: int
  HTTPPort :: int
  MetricsPort :: int
  Dir :: string
  Verbosity :: int
  LogFile :: string
  CleanFlags :: clean_flags
  TLSFlags :: tls_flags
  ClusterFlags :: cluster_flags

subsection \<open>Library functions used by \<open>main\<close>\<close>

text \<open>\<open>strings.Split(s, ",")\<close>: a string with \<open>n\<close> separators gives \<open>n + 1\<close> pieces.\<close>

fun split_on :: "char \<Rightarrow> string \<Rightarrow> string list" where
  "split_on c [] = ['''']"
| "split_on c (x # xs) =
     (if x = c then [] # split_on c xs
      else (case split_on c xs of
              [] \<Rightarrow> [x] # []
            | w # ws \<Rightarrow> (x # w) # ws))"

text \<open>The verb \<open>%d\<close> of \<open>fmt.Sprintf\<close>: decimal digits, with a minus sign when negative.\<close>

definition digit_char :: "nat \<Rightarrow> char" where
  "digit_char d = ''0123456789'' ! d"

function dec_nat :: "nat \<Rightarrow> string" where
  "dec_nat n = (if n < 10 then [digit_char n] else dec_nat (n div 10) @ [digit_char (n mod 10)])"
  by pat_completeness auto
termination
  by (relation "measure (\<lambda>n. n)") auto

declare dec_nat.simps [simp del]

definition dec_int :: "int \<Rightarrow> string" where
  "dec_int i = (if i < 0 then CHR ''-'' # dec_nat (nat (- i)) else dec_nat (nat i))"

subsection \<open>What the process does\<close>

text \<open>
  The calls \<open>main\<close> makes into other packages, in the order it makes them. The process
  is modelled by the list of these calls together with how \<open>main\<close> ends. A goroutine
  started with \<open>go\<close> is recorded at the point where it is started, with the listener
  it runs. The functions of the other packages are taken to return.
\<close>

record cluster_handle =
  gossip_port :: int
  rpc_port :: int
  node_name :: string
  advertise_addr :: string

datatype event =
    InitLogging int
  | InitFileLogging string int
  | NewCache string int int nat nat
  | LookupIP string
  | NewCluster int int string string
  | ClusterInit int
  | ClusterJoin "string list"
  | HandleFunc string
  | GoListenAndServeTLS string string string
  | GoListenAndServe string
  | BuildGrpcServer int "cluster_handle option" string string string string string
  | RegisterMetrics
  | EnableHandlingTimeHistogram
  | GoServeMetrics string
  | ServeGrpcForever

text \<open>
  \<open>log.Fatalf\<close> logs the message and ends the process with \<open>os.Exit(1)\<close>.
  \<open>server.ServeGrpcForever\<close> does not return.
\<close>

datatype outcome = Fatal string | Serving

definition msg_key_cert :: string where
  "msg_key_cert = ''Must pass both --key_file and --cert_file if you pass one''"

definition msg_certs_need_https :: string where
  "msg_certs_need_https =
     ''You can only use --writable_certs / --readonly_certs with https (--key_file and --cert_file)''"

definition msg_cluster_size :: string where
  "msg_cluster_size = ''You must pass a cluster size of > 1 when initialising the seed node.''"

text \<open>Lines 58 to 62: logging set-up.\<close>

definition init_logging :: "opts \<Rightarrow> event list" where
  "init_logging opts =
     InitLogging (Verbosity opts) #
     (if LogFile opts \<noteq> '''' then [InitFileLogging (LogFile opts) (Verbosity opts)] else [])"

text \<open>Lines 63 to 67: the checks on the TLS flags; \<open>Some\<close> is the message of \<open>log.Fatalf\<close>.\<close>

definition check_tls :: "tls_flags \<Rightarrow> string option" where
  "check_tls t =
     (if (KeyFile t = '''') \<noteq> (CertFile t = '''') then Some msg_key_cert
      else if KeyFile t = '''' \<and> (WritableCerts t \<noteq> '''' \<or> ReadonlyCerts t \<noteq> '''')
        then Some msg_certs_need_https
      else None)"

text \<open>Lines 70 to 72.\<close>

definition new_cache :: "opts \<Rightarrow> event" where
  "new_cache opts =
     NewCache (Dir opts) (CleanFrequency (CleanFlags opts)) (MaxArtifactAge (CleanFlags opts))
       (LowWaterMark (CleanFlags opts)) (HighWaterMark (CleanFlags opts))"

text \<open>
  Lines 75 to 78: when \<open>--seed_if\<close> is set and equals the node name, \<open>SeedCluster\<close> is
  overwritten by the outcome of \<open>net.LookupIP\<close> on the whole \<open>--cluster_addresses\<close>
  string. The resolver is a parameter: \<open>Inl\<close> is its error, \<open>Inr\<close> the addresses found.
  The result is the events and the value of \<open>opts.ClusterFlags.SeedCluster\<close> afterwards.
\<close>

definition seed_override :: "(string \<Rightarrow> string + string list) \<Rightarrow> cluster_flags \<Rightarrow> event list \<times> bool" where
  "seed_override lookup c =
     (if SeedIf c \<noteq> '''' \<and> SeedIf c = NodeName c
      then ([LookupIP (ClusterAddresses c)],
            (case lookup (ClusterAddresses c) of
               Inl err \<Rightarrow> True
             | Inr ips \<Rightarrow> length ips = 0))
      else ([], SeedCluster c))"

definition new_cluster :: "opts \<Rightarrow> cluster_handle" where
  "new_cluster opts =
     \<lparr>gossip_port = ClusterPort (ClusterFlags opts), rpc_port = Port opts,
      node_name = NodeName (ClusterFlags opts), advertise_addr = AdvertiseAddr (ClusterFlags opts)\<rparr>"

definition new_cluster_event :: "opts \<Rightarrow> event" where
  "new_cluster_event opts =
     NewCluster (ClusterPort (ClusterFlags opts)) (Port opts) (NodeName (ClusterFlags opts))
       (AdvertiseAddr (ClusterFlags opts))"

text \<open>
  Lines 79 to 88, given the value of \<open>SeedCluster\<close> after the override: either the
  fatal message, or the events and the value of \<open>clusta\<close> (\<open>None\<close> is \<open>nil\<close>).
\<close>

definition setup_cluster :: "opts \<Rightarrow> bool \<Rightarrow> string + (event list \<times> cluster_handle option)" where
  "setup_cluster opts seed =
     (if seed then
        (if ClusterSize (ClusterFlags opts) < 2 then Inl msg_cluster_size
         else Inr ([new_cluster_event opts, ClusterInit (ClusterSize (ClusterFlags opts))],
                   Some (new_cluster opts)))
      else if ClusterAddresses (ClusterFlags opts) \<noteq> '''' then
        Inr ([new_cluster_event opts,
              ClusterJoin (split_on CHR '','' (ClusterAddresses (ClusterFlags opts)))],
             Some (new_cluster opts))
      else Inr ([], None))"

text \<open>
  Lines 90 to 104: the status endpoint. The handler is registered for \<open>/\<close> on the
  default mux of \<open>net/http\<close>, and the listener serves that mux; the profiling
  handlers which the import of \<open>net/http/pprof\<close> adds to the same mux answer under
  \<open>/debug/pprof/\<close> and are left out.
\<close>

definition http_status :: "opts \<Rightarrow> event list" where
  "http_status opts =
     (if HTTPPort opts \<noteq> 0 then
        [HandleFunc ''/'',
         (let port = CHR '':'' # dec_int (HTTPPort opts) in
          if KeyFile (TLSFlags opts) \<noteq> ''''
          then GoListenAndServeTLS port (CertFile (TLSFlags opts)) (KeyFile (TLSFlags opts))
          else GoListenAndServe port)]
      else [])"

text \<open>
  Lines 91 to 94: the handler registered for \<open>/\<close>. It is given what \<open>cache.TotalSize()\<close>
  and \<open>cache.NumFiles()\<close> return when the request arrives.
\<close>

record http_response =
  content_type :: string
  body :: string

definition status_handler :: "int \<Rightarrow> int \<Rightarrow> http_response" where
  "status_handler size_total file_count =
     \<lparr>content_type = ''text/plain'',
      body = ''Total size: '' @ dec_int size_total @ '' bytes'' @ [CHR 0x0A] @
             ''Num files: '' @ dec_int file_count @ [CHR 0x0A]\<rparr>"

text \<open>Lines 106 to 108.\<close>

definition build_grpc :: "opts \<Rightarrow> cluster_handle option \<Rightarrow> event" where
  "build_grpc opts clusta =
     BuildGrpcServer (Port opts) clusta (KeyFile (TLSFlags opts)) (CertFile (TLSFlags opts))
       (CACertFile (TLSFlags opts)) (ReadonlyCerts (TLSFlags opts)) (WritableCerts (TLSFlags opts))"

text \<open>Lines 110 to 117.\<close>

definition metrics :: "opts \<Rightarrow> event list" where
  "metrics opts =
     (if MetricsPort opts \<noteq> 0
      then [RegisterMetrics, EnableHandlingTimeHistogram,
            GoServeMetrics (CHR '':'' # dec_int (MetricsPort opts))]
      else [])"

text \<open>
  Lines 95 to 102: the goroutine of the status endpoint passes what its listener returns
  to \<open>log.Fatalf\<close>, so a listener that returns ends the whole process. How the two
  listeners of \<open>net/http\<close> behave is a parameter: for the arguments of the call,
  \<open>Some\<close> is the error with which the listener returns (a port it cannot bind, a
  certificate or key file it cannot load), \<open>None\<close> a listener that keeps serving. The
  goroutine runs beside \<open>main\<close>; \<open>head_start\<close> is the number of further calls
  \<open>main\<close> has made when the goroutine ends the process.
\<close>

record http_env =
  ListenAndServe :: "string \<Rightarrow> string option"
  ListenAndServeTLS :: "string \<Rightarrow> string \<Rightarrow> string \<Rightarrow> string option"
  head_start :: nat

text \<open>
  Lines 96 to 101: the error with which the status listener returns, \<open>None\<close> when no
  status listener is started or when it keeps serving.
\<close>

definition status_listener :: "http_env \<Rightarrow> opts \<Rightarrow> string option" where
  "status_listener http opts =
     (if HTTPPort opts \<noteq> 0 then
        (let port = CHR '':'' # dec_int (HTTPPort opts) in
         if KeyFile (TLSFlags opts) \<noteq> ''''
         then ListenAndServeTLS http port (CertFile (TLSFlags opts)) (KeyFile (TLSFlags opts))
         else ListenAndServe http port)
      else None)"

text \<open>
  \<open>main\<close>, from the parsed options: the calls made and how the process ends. When the
  status listener returns with an error, the process ends with that error and a newline
  as its message (the format is \<open>"%s\n"\<close>), \<open>main\<close> having made \<open>head_start\<close> of
  the calls that follow the start of the goroutine. The metrics listener of line 116 is
  started without \<open>log.Fatalf\<close>: its error is dropped. The log lines written with
  \<open>log.Notice\<close> are left out.
\<close>

definition main ::
  "(string \<Rightarrow> string + string list) \<Rightarrow> http_env \<Rightarrow> opts \<Rightarrow> event list \<times> outcome" where
  "main lookup http opts =
     (let tr1 = init_logging opts in
      case check_tls (TLSFlags opts) of
        Some msg \<Rightarrow> (tr1, Fatal msg)
      | None \<Rightarrow>
          (let tr2 = tr1 @ [new_cache opts];
               (evs, seed) = seed_override lookup (ClusterFlags opts);
               tr3 = tr2 @ evs
           in case setup_cluster opts seed of
                Inl msg \<Rightarrow> (tr3, Fatal msg)
              | Inr (cevs, clusta) \<Rightarrow>
                  (let started = tr3 @ cevs @ http_status opts;
                       rest = [build_grpc opts clusta] @ metrics opts @ [ServeGrpcForever]
                   in case status_listener http opts of
                        None \<Rightarrow> (started @ rest, Serving)
                      | Some err \<Rightarrow>
                          (started @ take (head_start http) rest,
                           Fatal (err @ [CHR 0x0A])))))"

text \<open>Which events construct the cache, a cluster component, the gRPC server, or serve.\<close>

fun is_new_cache :: "event \<Rightarrow> bool" where
  "is_new_cache (NewCache d f a l h) = True"
| "is_new_cache e = False"

fun is_cluster :: "event \<Rightarrow> bool" where
  "is_cluster (NewCluster a b c d) = True"
| "is_cluster (ClusterInit n) = True"
| "is_cluster (ClusterJoin as) = True"
| "is_cluster e = False"

fun is_build_grpc :: "event \<Rightarrow> bool" where
  "is_build_grpc (BuildGrpcServer p c k ce ca r w) = True"
| "is_build_grpc e = False"

fun is_serving :: "event \<Rightarrow> bool" where
  "is_serving (GoListenAndServeTLS p c k) = True"
| "is_serving (GoListenAndServe p) = True"
| "is_serving (GoServeMetrics p) = True"
| "is_serving ServeGrpcForever = True"
| "is_serving e = False"

text \<open>
  A sample configuration: the default ports, directory and verbosity, water marks of
  18 and 20 times \<open>10^9\<close> bytes, the durations counted in seconds, nothing else set.
\<close>

definition sample_opts :: opts where
  "sample_opts =
     \<lparr>Port = 7677, HTTPPort = 0, MetricsPort = 0, Dir = ''plz-rpc-cache'', Verbosity = 2,
      LogFile = '''',
      CleanFlags = \<lparr>LowWaterMark = 18000000000, HighWaterMark = 20000000000,
                    CleanFrequency = 600, MaxArtifactAge = 2592000\<rparr>,
      TLSFlags = \<lparr>KeyFile = '''', CertFile = '''', CACertFile = '''', WritableCerts = '''',
                  ReadonlyCerts = ''''\<rparr>,
      ClusterFlags = \<lparr>ClusterPort = 7946, ClusterAddresses = '''', SeedCluster = False,
                      ClusterSize = 0, NodeName = '''', SeedIf = '''', AdvertiseAddr = ''''\<rparr>\<rparr>"

text \<open>Two resolvers: one that finds an address for every name, one that always fails.\<close>

definition resolves :: "string \<Rightarrow> string + string list" where
  "resolves host = Inr [''10.0.0.1'']"

definition resolve_fails :: "string \<Rightarrow> string + string list" where
  "resolve_fails host = Inl ''no such host''"

text \<open>
  Two behaviours of the listeners: both keep serving, or both return with an error at
  once, before \<open>main\<close> makes another call.
\<close>

definition listeners_serve :: http_env where
  "listeners_serve =
     \<lparr>ListenAndServe = (\<lambda>addr. None), ListenAndServeTLS = (\<lambda>addr cert key. None),
      head_start = 0\<rparr>"

definition listeners_fail :: http_env where
  "listeners_fail =
     \<lparr>ListenAndServe = (\<lambda>addr. Some ''listen failed''),
      ListenAndServeTLS = (\<lambda>addr cert key. Some ''listen failed''),
      head_start = 0\<rparr>"

fun is_init :: "event \<Rightarrow> bool" where
  "is_init (ClusterInit n) = True"
| "is_init e = False"

fun is_join :: "event \<Rightarrow> bool" where
  "is_join (ClusterJoin as) = True"
| "is_join e = False"

fun is_lookup :: "event \<Rightarrow> bool" where
  "is_lookup (LookupIP a) = True"
| "is_lookup e = False"

fun is_tls_listener :: "event \<Rightarrow> bool" where
  "is_tls_listener (GoListenAndServeTLS p c k) = True"
| "is_tls_listener e = False"

fun is_plain_listener :: "event \<Rightarrow> bool" where
  "is_plain_listener (GoListenAndServe p) = True"
| "is_plain_listener e = False"

text \<open>The value of \<open>opts.ClusterFlags.SeedCluster\<close> when line 79 reads it.\<close>

definition seeding :: "(string \<Rightarrow> string + string list) \<Rightarrow> opts \<Rightarrow> bool" where
  "seeding lookup opts = snd (seed_override lookup (ClusterFlags opts))"

text \<open>
  The three ways in which the configuration can be rejected: one of key and certificate
  without the other, client certificates without a server key, seeding with a cluster size
  below two.
\<close>

definition validation_fails :: "(string \<Rightarrow> string + string list) \<Rightarrow> opts \<Rightarrow> bool" where
  "validation_fails lookup opts =
     ((KeyFile (TLSFlags opts) = '''') \<noteq> (CertFile (TLSFlags opts) = '''') \<or>
      (KeyFile (TLSFlags opts) = '''' \<and>
        (WritableCerts (TLSFlags opts) \<noteq> '''' \<or> ReadonlyCerts (TLSFlags opts) \<noteq> '''')) \<or>
      (seeding lookup opts \<and> ClusterSize (ClusterFlags opts) < 2))"

text \<open>Reading a decimal number back, and the characters a decimal number is made of.\<close>

definition is_digit :: "char \<Rightarrow> bool" where
  "is_digit c = (c \<in> set ''0123456789'')"

fun undec :: "nat \<Rightarrow> string \<Rightarrow> nat" where
  "undec a [] = a"
| "undec a (c # cs) = undec (10 * a + (of_char c - 48)) cs"

text \<open>Further sample configurations, each the sample above with one group of flags set.\<close>

definition opts_with_cluster :: "cluster_flags \<Rightarrow> opts" where
  "opts_with_cluster c = sample_opts\<lparr>ClusterFlags := c\<rparr>"

definition opts_with_tls :: "tls_flags \<Rightarrow> opts" where
  "opts_with_tls t = sample_opts\<lparr>TLSFlags := t\<rparr>"

definition opts_key_only :: opts where
  "opts_key_only = opts_with_tls
     \<lparr>KeyFile = ''server.key'', CertFile = '''', CACertFile = '''', WritableCerts = '''',
      ReadonlyCerts = ''''\<rparr>"

definition opts_writable_only :: opts where
  "opts_writable_only = opts_with_tls
     \<lparr>KeyFile = '''', CertFile = '''', CACertFile = '''', WritableCerts = ''writers'',
      ReadonlyCerts = ''''\<rparr>"

definition opts_seed_small :: opts where
  "opts_seed_small = opts_with_cluster
     \<lparr>ClusterPort = 7946, ClusterAddresses = '''', SeedCluster = True, ClusterSize = 1,
      NodeName = '''', SeedIf = '''', AdvertiseAddr = ''''\<rparr>"

definition opts_seed_and_peers :: opts where
  "opts_seed_and_peers = opts_with_cluster
     \<lparr>ClusterPort = 7946, ClusterAddresses = ''peer'', SeedCluster = True, ClusterSize = 3,
      NodeName = '''', SeedIf = '''', AdvertiseAddr = ''''\<rparr>"

definition opts_seed_if_peer :: opts where
  "opts_seed_if_peer = opts_with_cluster
     \<lparr>ClusterPort = 7946, ClusterAddresses = ''peer'', SeedCluster = True, ClusterSize = 0,
      NodeName = ''cache-0'', SeedIf = ''cache-0'', AdvertiseAddr = ''''\<rparr>"

definition opts_seed_if_three :: opts where
  "opts_seed_if_three = opts_with_cluster
     \<lparr>ClusterPort = 7946, ClusterAddresses = ''peer'', SeedCluster = False, ClusterSize = 3,
      NodeName = ''cache-0'', SeedIf = ''cache-0'', AdvertiseAddr = ''''\<rparr>"

definition opts_status_tls :: opts where
  "opts_status_tls = sample_opts
     \<lparr>HTTPPort := 8080,
      TLSFlags := \<lparr>KeyFile = ''server.key'', CertFile = ''server.crt'', CACertFile = '''',
                   WritableCerts = '''', ReadonlyCerts = ''''\<rparr>\<rparr>"

definition opts_bad_port :: opts where
  "opts_bad_port = sample_opts\<lparr>HTTPPort := - 1\<rparr>"

definition opts_seed_bad_port :: opts where
  "opts_seed_bad_port = sample_opts
     \<lparr>HTTPPort := - 1,
      ClusterFlags := \<lparr>ClusterPort = 7946, ClusterAddresses = '''', SeedCluster = True,
                      ClusterSize = 3, NodeName = '''', SeedIf = '''', AdvertiseAddr = ''''\<rparr>\<rparr>"

section \<open>The cache behind the server: store, evictor and request router\<close>

text \<open>
  \<open>main\<close> hands the work to the packages \<open>tools/cache/server\<close> and
  \<open>tools/cache/cluster\<close>, whose sources are not part of what is verified here. The
  definitions of this section follow the specification of these components instead; each
  says which part of the specification it renders. Operations that the specification
  makes atomic (a write is never partially visible, writes to one key exclude each other)
  are single steps, and concurrent requests are interleavings of such steps.
\<close>

text \<open>
  Modelled from the spec: the error taxonomy of \<open>tools/cache/server\<close> (section 7).
\<close>

datatype error =
    NotFound | PermissionDenied | Unauthenticated | StorageError | ClusterUnavailable
  | ConfigError

text \<open>
  Modelled from the spec: the capability the AuthGate of \<open>tools/cache/server\<close> grants
  to a client, none, read or write (section 4.3).
\<close>

datatype capability = NoCap | Read | Write

subsection \<open>ArtifactStore\<close>

text \<open>
  Modelled from the spec: the artifact of \<open>tools/cache/server\<close> (section 3). It holds
  its payload, its size in bytes, and the times of its creation and of its last access.
\<close>

record artifact =
  payload :: string
  art_size :: nat
  created :: nat
  last_access :: nat

text \<open>
  Modelled from the spec: the state of the ArtifactStore of \<open>tools/cache/server\<close>
  (sections 3 and 4.1), the resident artifacts by key and the aggregate size, which is
  maintained incrementally.
\<close>

record 'k store =
  artifacts :: "('k \<times> artifact) list"
  total_size :: nat

text \<open>Modelled from the spec: the store of \<open>tools/cache/server\<close> with nothing in it.\<close>

definition empty_store :: "'k store" where
  "empty_store = \<lparr>artifacts = [], total_size = 0\<rparr>"

text \<open>Modelled from the spec: the artifact that the store holds under a key, if any.\<close>

definition resident :: "'k store \<Rightarrow> 'k \<Rightarrow> artifact option" where
  "resident st key = map_of (artifacts st) key"

text \<open>
  Modelled from the spec: the invariant of the data model of \<open>tools/cache/server\<close>
  (section 3). There is one artifact per key, each has the size of its payload, and the
  aggregate size is the sum of the sizes of the resident artifacts.
\<close>

definition store_inv :: "'k store \<Rightarrow> bool" where
  "store_inv st =
     (distinct (map fst (artifacts st)) \<and>
      list_all (\<lambda>(k, a). art_size a = length (payload a)) (artifacts st) \<and>
      total_size st = sum_list (map (\<lambda>(k, a). art_size a) (artifacts st)))"

text \<open>
  Modelled from the spec: \<open>Put(key, payload)\<close> of the ArtifactStore (section 4.1). The
  write is atomic; the aggregate size is adjusted for the old size first, then for the
  new one; a failure of the underlying I/O (\<open>io_ok\<close> false) surfaces as
  \<open>StorageError\<close> and leaves the store as it was.
\<close>

definition Put :: "bool \<Rightarrow> nat \<Rightarrow> 'k \<Rightarrow> string \<Rightarrow> 'k store \<Rightarrow> error + 'k store" where
  "Put io_ok now key bytes st =
     (if \<not> io_ok then Inl StorageError
      else
        (let old = (case resident st key of None \<Rightarrow> 0 | Some a \<Rightarrow> art_size a);
             a = \<lparr>payload = bytes, art_size = length bytes, created = now, last_access = now\<rparr>
         in Inr \<lparr>artifacts = AList.update key a (artifacts st),
                 total_size = total_size st - old + length bytes\<rparr>))"

text \<open>
  Modelled from the spec: \<open>Get(key)\<close> of the ArtifactStore (section 4.1) returns the
  payload or fails with \<open>NotFound\<close>.
\<close>

definition Get :: "'k \<Rightarrow> 'k store \<Rightarrow> error + string" where
  "Get key st = (case resident st key of None \<Rightarrow> Inl NotFound | Some a \<Rightarrow> Inr (payload a))"

text \<open>
  Modelled from the spec: the update of the last-access time that follows a successful
  \<open>Get\<close> (section 4.1). It happens asynchronously and can neither block nor fail the
  read, so it is a step of its own.
\<close>

definition touch :: "nat \<Rightarrow> 'k \<Rightarrow> 'k store \<Rightarrow> 'k store" where
  "touch now key st =
     (case resident st key of
        None \<Rightarrow> st
      | Some a \<Rightarrow> st\<lparr>artifacts := AList.update key (a\<lparr>last_access := now\<rparr>) (artifacts st)\<rparr>)"

text \<open>
  Modelled from the spec: \<open>Delete(key)\<close> of the ArtifactStore (section 4.1) removes the
  artifact; on an absent key it is a no-op that reports success. Removing a resident
  artifact is I/O and can fail with \<open>StorageError\<close>.
\<close>

definition Delete :: "bool \<Rightarrow> 'k \<Rightarrow> 'k store \<Rightarrow> error + 'k store" where
  "Delete io_ok key st =
     (case resident st key of
        None \<Rightarrow> Inr st
      | Some a \<Rightarrow>
          if \<not> io_ok then Inl StorageError
          else Inr \<lparr>artifacts = AList.delete key (artifacts st),
                    total_size = total_size st - art_size a\<rparr>)"

text \<open>
  Modelled from the spec: \<open>Stat()\<close> of the ArtifactStore (section 4.1), the aggregate
  size and the artifact count.
\<close>

definition Stat :: "'k store \<Rightarrow> nat \<times> nat" where
  "Stat st = (total_size st, length (artifacts st))"

subsection \<open>Evictor\<close>

text \<open>
  Modelled from the spec: the retention configuration of \<open>tools/cache/server\<close>
  (section 6), the two water marks and the maximum age of an artifact.
\<close>

record retention =
  low_water_mark :: nat
  high_water_mark :: nat
  max_artifact_age :: nat

text \<open>
  Modelled from the spec: how the Evictor of \<open>tools/cache/server\<close> deletes one
  artifact (section 4.2). \<open>locked\<close> tells which keys have their lock held by an
  in-flight \<open>Put\<close> while the cycle runs, \<open>fails\<close> for which keys the deletion meets an
  I/O error. A locked artifact is skipped, a failed deletion is logged, and in both
  cases the cycle goes on with the remaining candidates. An artifact that is gone
  already counts as deleted.
\<close>

definition evict_one :: "('k \<Rightarrow> bool) \<Rightarrow> ('k \<Rightarrow> bool) \<Rightarrow> 'k \<Rightarrow> 'k store \<Rightarrow> 'k store" where
  "evict_one locked fails key st =
     (if locked key then st
      else (case Delete (\<not> fails key) key st of Inl e \<Rightarrow> st | Inr st' \<Rightarrow> st'))"

text \<open>
  Modelled from the spec: the age pass of the Evictor (section 4.2) deletes every
  artifact of the snapshot whose last access is older than \<open>MaxArtifactAge\<close>, whatever
  the aggregate size.
\<close>

fun age_pass ::
  "('k \<Rightarrow> bool) \<Rightarrow> ('k \<Rightarrow> bool) \<Rightarrow> nat \<Rightarrow> nat \<Rightarrow> ('k \<times> artifact) list \<Rightarrow> 'k store \<Rightarrow> 'k store" where
  "age_pass locked fails now max_age [] st = st"
| "age_pass locked fails now max_age ((k, a) # snapshot) st =
     age_pass locked fails now max_age snapshot
       (if last_access a + max_age < now then evict_one locked fails k st else st)"

text \<open>
  Modelled from the spec: the order of the size pass of the Evictor (sections 4.2 and 8),
  ascending last access, least recently used first, ties broken by key order.
\<close>

definition lru_order :: "('k::linorder \<times> artifact) list \<Rightarrow> ('k \<times> artifact) list" where
  "lru_order snapshot = sort_key (\<lambda>(k, a). (last_access a, k)) snapshot"

text \<open>
  Modelled from the spec: the loop of the size pass of the Evictor (section 4.2) deletes
  in the given order until the aggregate size is at or below \<open>LowWaterMark\<close>.
\<close>

fun size_loop :: "('k \<Rightarrow> bool) \<Rightarrow> ('k \<Rightarrow> bool) \<Rightarrow> nat \<Rightarrow> 'k list \<Rightarrow> 'k store \<Rightarrow> 'k store" where
  "size_loop locked fails low [] st = st"
| "size_loop locked fails low (k # ks) st =
     (if total_size st \<le> low then st
      else size_loop locked fails low ks (evict_one locked fails k st))"

text \<open>
  Modelled from the spec: the size pass of the Evictor (section 4.2) runs only when the
  aggregate size exceeds \<open>HighWaterMark\<close>, over the snapshot in the order above.
\<close>

definition size_pass ::
  "('k \<Rightarrow> bool) \<Rightarrow> ('k \<Rightarrow> bool) \<Rightarrow> retention \<Rightarrow> ('k::linorder \<times> artifact) list \<Rightarrow> 'k store \<Rightarrow> 'k store" where
  "size_pass locked fails cfg snapshot st =
     (if high_water_mark cfg < total_size st
      then size_loop locked fails (low_water_mark cfg) (map fst (lru_order snapshot)) st
      else st)"

text \<open>
  Modelled from the spec: one cycle of the Evictor (section 4.2) takes a snapshot of the
  listing, then runs the age pass and the size pass over it.
\<close>

definition evict_cycle ::
  "('k \<Rightarrow> bool) \<Rightarrow> ('k \<Rightarrow> bool) \<Rightarrow> retention \<Rightarrow> nat \<Rightarrow> 'k::linorder store \<Rightarrow> 'k store" where
  "evict_cycle locked fails cfg now st =
     (let snapshot = artifacts st
      in size_pass locked fails cfg snapshot
           (age_pass locked fails now (max_artifact_age cfg) snapshot st))"

text \<open>
  Modelled from the spec: what the size pass is meant to remove, in the words of the
  specification (sections 4.2 and 8). Going through the sizes of the artifacts in the
  order of the size pass, \<open>evicted_count\<close> counts as many as it takes until the
  aggregate size is at or below the low water mark.
\<close>

fun evicted_count :: "nat \<Rightarrow> nat \<Rightarrow> nat list \<Rightarrow> nat" where
  "evicted_count low agg [] = 0"
| "evicted_count low agg (s # ss) =
     (if agg \<le> low then 0 else Suc (evicted_count low (agg - s) ss))"

text \<open>
  Modelled from the spec: the keys of the artifacts that the size pass is meant to
  remove from a store, the first \<open>evicted_count\<close> ones in the order of the size pass.
\<close>

definition evicted :: "retention \<Rightarrow> 'k::linorder store \<Rightarrow> 'k list" where
  "evicted cfg st =
     map fst
       (take (evicted_count (low_water_mark cfg) (total_size st)
                (map (\<lambda>(k, a). art_size a) (lru_order (artifacts st))))
          (lru_order (artifacts st)))"

text \<open>The store that holds the listed artifacts, its aggregate size being their sum.\<close>

definition store_of :: "('k \<times> artifact) list \<Rightarrow> 'k store" where
  "store_of xs = \<lparr>artifacts = xs, total_size = sum_list (map (\<lambda>(k, a). art_size a) xs)\<rparr>"

subsection \<open>RequestRouter\<close>

text \<open>
  Modelled from the spec: the name of a node of the cluster of \<open>tools/cache/cluster\<close>
  (section 3).
\<close>

type_synonym node = string

text \<open>
  Modelled from the spec: the ring snapshot a request of \<open>tools/cache/server\<close> works
  on (sections 3 and 4.5). It gives the ordered owners of every key, the primary owner
  first, and no owners at all when the node runs without a cluster;
  \<open>write_forwarding\<close> says whether owners other than the primary forward their writes.
\<close>

record 'k routing =
  owners :: "'k \<Rightarrow> node list"
  write_forwarding :: bool

text \<open>
  Modelled from the spec: what can fail while a request of \<open>tools/cache/server\<close> is
  served (sections 4.1 and 4.5). \<open>peer_ok n\<close> says that a request sent to the peer \<open>n\<close>
  is served there before the deadline; a peer that cannot be reached, a timeout and a
  failure at the peer are all the request failing. \<open>disk_ok\<close> says that the I/O of the
  node's own store succeeds.
\<close>

record net =
  peer_ok :: "node \<Rightarrow> bool"
  disk_ok :: bool

text \<open>
  Modelled from the spec: the stores of the nodes of the cluster, and the artifacts
  tagged for background repair after a fallback write (section 4.5).
\<close>

record 'k cluster_state =
  stores :: "node \<Rightarrow> 'k store"
  repair :: "(node \<times> 'k) list"

text \<open>Modelled from the spec: a write that a peer serves, into the store of that peer.\<close>

definition put_at :: "node \<Rightarrow> nat \<Rightarrow> 'k \<Rightarrow> string \<Rightarrow> 'k cluster_state \<Rightarrow> 'k cluster_state" where
  "put_at n now key bytes cl =
     (case Put True now key bytes (stores cl n) of
        Inl e \<Rightarrow> cl
      | Inr st \<Rightarrow> cl\<lparr>stores := (stores cl)(n := st)\<rparr>)"

text \<open>
  Modelled from the spec: best-effort replication to the remaining owners (section 4.5).
  A failure is logged and not surfaced; replication is asynchronous, and an owner it has
  not reached yet is an owner whose request has not been served.
\<close>

fun replicate_to ::
  "net \<Rightarrow> nat \<Rightarrow> 'k \<Rightarrow> string \<Rightarrow> node list \<Rightarrow> 'k cluster_state \<Rightarrow> 'k cluster_state" where
  "replicate_to nw now key bytes [] cl = cl"
| "replicate_to nw now key bytes (n # ns) cl =
     replicate_to nw now key bytes ns (if peer_ok nw n then put_at n now key bytes cl else cl)"

text \<open>
  Modelled from the spec: whether a node writes a key locally (section 4.5): it is the
  primary owner, or any owner when writes are not forwarded, or it has no cluster.
\<close>

definition serves_locally :: "'k routing \<Rightarrow> node \<Rightarrow> 'k \<Rightarrow> bool" where
  "serves_locally r self key =
     (owners r key = [] \<or> self = hd (owners r key) \<or>
      (self \<in> set (owners r key) \<and> \<not> write_forwarding r))"

text \<open>
  Modelled from the spec: \<open>Store(key, payload)\<close> of the RequestRouter (section 4.5). It
  requires the \<open>Write\<close> capability. A node that serves the key locally writes into its
  own store and replicates to the remaining owners. Any other node forwards the write to
  the primary owner once, which serves it as its own; if the forward fails the node
  writes locally anyway and tags the artifact for repair.
\<close>

definition Store ::
  "net \<Rightarrow> 'k routing \<Rightarrow> nat \<Rightarrow> node \<Rightarrow> capability \<Rightarrow> 'k \<Rightarrow> string \<Rightarrow> 'k cluster_state
     \<Rightarrow> error + 'k cluster_state" where
  "Store nw r now self cap key bytes cl =
     (case cap of
        NoCap \<Rightarrow> Inl Unauthenticated
      | Read \<Rightarrow> Inl PermissionDenied
      | Write \<Rightarrow>
          if serves_locally r self key then
            (case Put (disk_ok nw) now key bytes (stores cl self) of
               Inl e \<Rightarrow> Inl e
             | Inr st \<Rightarrow>
                 Inr (replicate_to nw now key bytes (removeAll self (owners r key))
                        (cl\<lparr>stores := (stores cl)(self := st)\<rparr>)))
          else if peer_ok nw (hd (owners r key)) then
            Inr (replicate_to nw now key bytes (removeAll (hd (owners r key)) (owners r key))
                   (put_at (hd (owners r key)) now key bytes cl))
          else
            (case Put (disk_ok nw) now key bytes (stores cl self) of
               Inl e \<Rightarrow> Inl e
             | Inr st \<Rightarrow>
                 Inr (cl\<lparr>stores := (stores cl)(self := st), repair := (self, key) # repair cl\<rparr>)))"

text \<open>
  Modelled from the spec: the lookup at the owners that \<open>Retrieve\<close> makes on a local miss
  (section 4.5). The owners are asked in preference order until one answers with the
  artifact, and \<open>NotFound\<close> is the answer when the list is exhausted.
\<close>

fun query_owners :: "net \<Rightarrow> 'k \<Rightarrow> node list \<Rightarrow> 'k cluster_state \<Rightarrow> error + string" where
  "query_owners nw key [] cl = Inl NotFound"
| "query_owners nw key (n # ns) cl =
     (if peer_ok nw n then
        (case Get key (stores cl n) of
           Inr bytes \<Rightarrow> Inr bytes
         | Inl e \<Rightarrow> query_owners nw key ns cl)
      else query_owners nw key ns cl)"

text \<open>
  Modelled from the spec: \<open>Retrieve(key)\<close> of the RequestRouter (section 4.5). It
  requires \<open>Read\<close>, which \<open>Write\<close> implies. The local store is tried first, whoever
  owns the key; on a local miss the owners are asked.
\<close>

definition Retrieve ::
  "net \<Rightarrow> 'k routing \<Rightarrow> node \<Rightarrow> capability \<Rightarrow> 'k \<Rightarrow> 'k cluster_state \<Rightarrow> error + string" where
  "Retrieve nw r self cap key cl =
     (case cap of
        NoCap \<Rightarrow> Inl Unauthenticated
      | _ \<Rightarrow>
          (case Get key (stores cl self) of
             Inr bytes \<Rightarrow> Inr bytes
           | Inl e \<Rightarrow> query_owners nw key (owners r key) cl))"

text \<open>
  Modelled from the spec: a \<open>Store\<close> request of some client, with the node that receives
  it and with the ring snapshot and the failures it meets (section 5: each request is an
  independent unit of work on one snapshot).
\<close>

record 'k store_request =
  rq_net :: net
  rq_routing :: "'k routing"
  rq_now :: nat
  rq_node :: node
  rq_cap :: capability
  rq_key :: 'k
  rq_payload :: string

text \<open>
  Modelled from the spec: \<open>Store\<close> requests served one after the other, in the order in
  which their writes take effect. A request that fails leaves the cluster as it was.
\<close>

fun run_stores :: "'k store_request list \<Rightarrow> 'k cluster_state \<Rightarrow> 'k cluster_state" where
  "run_stores [] cl = cl"
| "run_stores (q # qs) cl =
     run_stores qs
       (case Store (rq_net q) (rq_routing q) (rq_now q) (rq_node q) (rq_cap q) (rq_key q)
               (rq_payload q) cl of
          Inl e \<Rightarrow> cl
        | Inr cl' \<Rightarrow> cl')"

text \<open>
  Modelled from the spec: \<open>Store\<close> immediately followed by \<open>Retrieve\<close> of the same key,
  at the same node and on the same ring snapshot (section 8, round trip).
\<close>

definition store_then_retrieve ::
  "net \<Rightarrow> 'k routing \<Rightarrow> nat \<Rightarrow> node \<Rightarrow> capability \<Rightarrow> 'k \<Rightarrow> string \<Rightarrow> 'k cluster_state
     \<Rightarrow> error + string" where
  "store_then_retrieve nw r now self cap key bytes cl =
     (case Store nw r now self cap key bytes cl of
        Inl e \<Rightarrow> Inl e
      | Inr cl' \<Rightarrow> Retrieve nw r self cap key cl')"

subsection \<open>Sample data\<close>

text \<open>A network without failures, an empty cluster, and two ring snapshots.\<close>

definition all_ok :: net where
  "all_ok = \<lparr>peer_ok = (\<lambda>n. True), disk_ok = True\<rparr>"

definition no_artifacts :: "nat cluster_state" where
  "no_artifacts = \<lparr>stores = (\<lambda>n. empty_store), repair = []\<rparr>"

definition ring_a :: "nat routing" where
  "ring_a = \<lparr>owners = (\<lambda>k. [''a'']), write_forwarding = False\<rparr>"

definition ring_b :: "nat routing" where
  "ring_b = \<lparr>owners = (\<lambda>k. [''b'']), write_forwarding = False\<rparr>"

text \<open>Two requests: one while node \<open>a\<close> owns every key, one for another key.\<close>

definition first_store :: "nat store_request" where
  "first_store =
     \<lparr>rq_net = all_ok, rq_routing = ring_a, rq_now = 1, rq_node = ''a'', rq_cap = Write,
      rq_key = 7, rq_payload = ''old''\<rparr>"

definition other_store :: "nat store_request" where
  "other_store =
     \<lparr>rq_net = all_ok, rq_routing = ring_b, rq_now = 3, rq_node = ''a'', rq_cap = Write,
      rq_key = 8, rq_payload = ''other''\<rparr>"

text \<open>Two artifacts of two bytes each, key 10 the older, and each of them alone.\<close>

definition two_artifacts :: "nat store" where
  "two_artifacts =
     \<lparr>artifacts =
        [(20, \<lparr>payload = ''bb'', art_size = 2, created = 2, last_access = 2\<rparr>),
         (10, \<lparr>payload = ''aa'', art_size = 2, created = 1, last_access = 1\<rparr>)],
      total_size = 4\<rparr>"

definition newer_artifact :: "nat store" where
  "newer_artifact =
     \<lparr>artifacts = [(20, \<lparr>payload = ''bb'', art_size = 2, created = 2, last_access = 2\<rparr>)],
      total_size = 2\<rparr>"

definition older_artifact :: "nat store" where
  "older_artifact =
     \<lparr>artifacts = [(10, \<lparr>payload = ''aa'', art_size = 2, created = 1, last_access = 1\<rparr>)],
      total_size = 2\<rparr>"

text \<open>Water marks, and which keys are locked or fail to be deleted.\<close>

definition marks :: retention where
  "marks = \<lparr>low_water_mark = 2, high_water_mark = 3, max_artifact_age = 100\<rparr>"

definition tight_marks :: retention where
  "tight_marks = \<lparr>low_water_mark = 1, high_water_mark = 3, max_artifact_age = 100\<rparr>"

definition no_key :: "nat \<Rightarrow> bool" where
  "no_key k = False"

definition only_key_10 :: "nat \<Rightarrow> bool" where
  "only_key_10 k = (k = 10)"

section \<open>Properties of the startup\<close>

subsection \<open>How \<open>main\<close> can run\<close>

lemmas run_defs =
  main_def sample_opts_def opts_with_cluster_def opts_with_tls_def check_tls_def
  seed_override_def seeding_def setup_cluster_def init_logging_def new_cache_def
  new_cluster_def new_cluster_event_def http_status_def build_grpc_def metrics_def
  resolves_def resolve_fails_def status_listener_def listeners_serve_def listeners_fail_def

lemma check_tls_None_iff:
  "check_tls t = None \<longleftrightarrow>
     ((KeyFile t = '''') = (CertFile t = '''')) \<and>
     (KeyFile t = '''' \<longrightarrow> WritableCerts t = '''' \<and> ReadonlyCerts t = '''')"
  by (auto simp: check_tls_def)

lemma main_tls_fatal:
  "check_tls (TLSFlags opts) = Some msg \<Longrightarrow> main lookup http opts = (init_logging opts, Fatal msg)"
  by (simp add: main_def)

lemma main_size_fatal:
  "check_tls (TLSFlags opts) = None \<Longrightarrow> seeding lookup opts \<Longrightarrow>
   ClusterSize (ClusterFlags opts) < 2 \<Longrightarrow>
   main lookup http opts =
     (init_logging opts @ [new_cache opts] @ fst (seed_override lookup (ClusterFlags opts)),
      Fatal msg_cluster_size)"
  by (cases "seed_override lookup (ClusterFlags opts)")
     (simp add: main_def seeding_def setup_cluster_def)

lemma main_past_checks:
  assumes "check_tls (TLSFlags opts) = None"
    and "setup_cluster opts (seeding lookup opts) = Inr (cevs, clusta)"
  shows "main lookup http opts =
     (case status_listener http opts of
        None \<Rightarrow>
          (init_logging opts @ [new_cache opts] @ fst (seed_override lookup (ClusterFlags opts))
             @ cevs @ http_status opts @ [build_grpc opts clusta] @ metrics opts
             @ [ServeGrpcForever],
           Serving)
      | Some err \<Rightarrow>
          (init_logging opts @ [new_cache opts] @ fst (seed_override lookup (ClusterFlags opts))
             @ cevs @ http_status opts
             @ take (head_start http) ([build_grpc opts clusta] @ metrics opts @ [ServeGrpcForever]),
           Fatal (err @ [CHR 0x0A])))"
  using assms
  by (cases "seed_override lookup (ClusterFlags opts)")
     (simp add: main_def seeding_def split: option.splits)

lemma setup_cluster_Inl:
  "setup_cluster opts seed = Inl m \<Longrightarrow>
     seed \<and> ClusterSize (ClusterFlags opts) < 2 \<and> m = msg_cluster_size"
  by (auto simp: setup_cluster_def split: if_splits)

lemma main_cases:
  obtains (tls) msg where "check_tls (TLSFlags opts) = Some msg"
      "main lookup http opts = (init_logging opts, Fatal msg)"
  | (size) "check_tls (TLSFlags opts) = None" "seeding lookup opts"
      "ClusterSize (ClusterFlags opts) < 2"
      "main lookup http opts =
         (init_logging opts @ [new_cache opts] @ fst (seed_override lookup (ClusterFlags opts)),
          Fatal msg_cluster_size)"
  | (past) cevs clusta where "check_tls (TLSFlags opts) = None"
      "setup_cluster opts (seeding lookup opts) = Inr (cevs, clusta)"
proof (cases "check_tls (TLSFlags opts)")
  case (Some msg)
  then show ?thesis using tls main_tls_fatal by blast
next
  case None
  show ?thesis
  proof (cases "setup_cluster opts (seeding lookup opts)")
    case (Inl m)
    then have "seeding lookup opts" "ClusterSize (ClusterFlags opts) < 2"
      using setup_cluster_Inl by blast+
    then show ?thesis using None size main_size_fatal by blast
  next
    case (Inr p)
    then obtain cevs clusta where "setup_cluster opts (seeding lookup opts) = Inr (cevs, clusta)"
      by (cases p) auto
    then show ?thesis using None past by blast
  qed
qed

text \<open>
  Once the checks are passed, every call up to the start of the status listener is made,
  whatever the listener does then, and no call is made that \<open>main\<close> does not make.
\<close>

lemma past_checks_trace:
  assumes "check_tls (TLSFlags opts) = None"
    and "setup_cluster opts (seeding lookup opts) = Inr (cevs, clusta)"
  shows "set (init_logging opts) \<union> {new_cache opts} \<union>
           set (fst (seed_override lookup (ClusterFlags opts))) \<union> set cevs \<union>
           set (http_status opts) \<subseteq> set (fst (main lookup http opts))"
    and "set (fst (main lookup http opts)) \<subseteq>
           set (init_logging opts) \<union> {new_cache opts} \<union>
           set (fst (seed_override lookup (ClusterFlags opts))) \<union> set cevs \<union>
           set (http_status opts) \<union> {build_grpc opts clusta} \<union> set (metrics opts) \<union>
           {ServeGrpcForever}"
proof -
  note m = main_past_checks [OF assms, of http]
  show "set (init_logging opts) \<union> {new_cache opts} \<union>
           set (fst (seed_override lookup (ClusterFlags opts))) \<union> set cevs \<union>
           set (http_status opts) \<subseteq> set (fst (main lookup http opts))"
    unfolding m by (auto split: option.splits)
  have "set (take (head_start http) ([build_grpc opts clusta] @ metrics opts @ [ServeGrpcForever]))
        \<subseteq> {build_grpc opts clusta} \<union> set (metrics opts) \<union> {ServeGrpcForever}"
    using set_take_subset [of "head_start http" "[build_grpc opts clusta] @ metrics opts @ [ServeGrpcForever]"]
    by auto
  then show "set (fst (main lookup http opts)) \<subseteq>
           set (init_logging opts) \<union> {new_cache opts} \<union>
           set (fst (seed_override lookup (ClusterFlags opts))) \<union> set cevs \<union>
           set (http_status opts) \<union> {build_grpc opts clusta} \<union> set (metrics opts) \<union>
           {ServeGrpcForever}"
    unfolding m by (auto split: option.splits)
qed

lemma past_checks_serving:
  assumes "check_tls (TLSFlags opts) = None"
    and "setup_cluster opts (seeding lookup opts) = Inr (cevs, clusta)"
    and "status_listener http opts = None"
  shows "snd (main lookup http opts) = Serving"
    and "build_grpc opts clusta \<in> set (fst (main lookup http opts))"
    and "ServeGrpcForever \<in> set (fst (main lookup http opts))"
  using main_past_checks [OF assms(1,2), of http] assms(3) by simp_all

subsection \<open>What each block of \<open>main\<close> can call\<close>

lemma init_logging_events:
  "e \<in> set (init_logging opts) \<Longrightarrow>
     \<not> is_new_cache e \<and> \<not> is_cluster e \<and> \<not> is_build_grpc e \<and> \<not> is_serving e"
  by (auto simp: init_logging_def split: if_splits)

lemma init_logging_events2:
  "e \<in> set (init_logging opts) \<Longrightarrow>
     \<not> is_init e \<and> \<not> is_join e \<and> \<not> is_tls_listener e \<and> \<not> is_plain_listener e \<and> \<not> is_lookup e"
  by (auto simp: init_logging_def split: if_splits)

lemma seed_override_events:
  "e \<in> set (fst (seed_override lookup c)) \<Longrightarrow>
     \<not> is_new_cache e \<and> \<not> is_cluster e \<and> \<not> is_build_grpc e \<and> \<not> is_serving e"
  by (auto simp: seed_override_def split: if_splits)

lemma seed_override_events2:
  "e \<in> set (fst (seed_override lookup c)) \<Longrightarrow>
     \<not> is_init e \<and> \<not> is_join e \<and> \<not> is_tls_listener e \<and> \<not> is_plain_listener e"
  by (auto simp: seed_override_def split: if_splits)

lemma seed_override_no_lookup:
  "\<not> (SeedIf c \<noteq> '''' \<and> SeedIf c = NodeName c) \<Longrightarrow> seed_override lookup c = ([], SeedCluster c)"
  by (auto simp: seed_override_def)

lemma seeding_seed_if:
  "SeedIf (ClusterFlags opts) \<noteq> '''' \<Longrightarrow> SeedIf (ClusterFlags opts) = NodeName (ClusterFlags opts) \<Longrightarrow>
   seeding lookup opts \<longleftrightarrow>
     \<not> (\<exists>ips. lookup (ClusterAddresses (ClusterFlags opts)) = Inr ips \<and> ips \<noteq> [])"
  by (auto simp: seeding_def seed_override_def split: sum.splits)

lemma new_cache_event:
  "is_new_cache (new_cache opts) \<and> \<not> is_cluster (new_cache opts) \<and>
   \<not> is_build_grpc (new_cache opts) \<and> \<not> is_serving (new_cache opts)"
  by (simp add: new_cache_def)

lemma setup_cluster_seed:
  "2 \<le> ClusterSize (ClusterFlags opts) \<Longrightarrow>
   setup_cluster opts True =
     Inr ([new_cluster_event opts, ClusterInit (ClusterSize (ClusterFlags opts))],
          Some (new_cluster opts))"
  by (simp add: setup_cluster_def)

lemma setup_cluster_join:
  "ClusterAddresses (ClusterFlags opts) \<noteq> '''' \<Longrightarrow>
   setup_cluster opts False =
     Inr ([new_cluster_event opts,
           ClusterJoin (split_on CHR '','' (ClusterAddresses (ClusterFlags opts)))],
          Some (new_cluster opts))"
  by (simp add: setup_cluster_def)


lemma cluster_events_no_listener:
  "setup_cluster opts seed = Inr (cevs, clusta) \<Longrightarrow> e \<in> set cevs \<Longrightarrow>
     \<not> is_tls_listener e \<and> \<not> is_plain_listener e"
  by (auto simp: setup_cluster_def new_cluster_event_def split: if_splits)

lemma http_status_events:
  "e \<in> set (http_status opts) \<Longrightarrow>
     \<not> is_cluster e \<and> \<not> is_build_grpc e \<and> \<not> is_init e \<and> \<not> is_join e \<and> \<not> is_lookup e"
  by (auto simp: http_status_def Let_def split: if_splits)

lemma http_status_listeners:
  assumes "HTTPPort opts \<noteq> 0"
  shows "HandleFunc ''/'' \<in> set (http_status opts)"
    and "KeyFile (TLSFlags opts) \<noteq> '''' \<Longrightarrow>
           GoListenAndServeTLS (CHR '':'' # dec_int (HTTPPort opts)) (CertFile (TLSFlags opts))
             (KeyFile (TLSFlags opts)) \<in> set (http_status opts) \<and>
           (\<forall>e \<in> set (http_status opts). \<not> is_plain_listener e)"
    and "KeyFile (TLSFlags opts) = '''' \<Longrightarrow>
           GoListenAndServe (CHR '':'' # dec_int (HTTPPort opts)) \<in> set (http_status opts) \<and>
           (\<forall>e \<in> set (http_status opts). \<not> is_tls_listener e)"
  using assms by (auto simp: http_status_def)

lemma metrics_events:
  "e \<in> set (metrics opts) \<Longrightarrow>
     \<not> is_cluster e \<and> \<not> is_build_grpc e \<and> \<not> is_init e \<and> \<not> is_join e \<and>
     \<not> is_tls_listener e \<and> \<not> is_plain_listener e \<and> \<not> is_lookup e"
  by (auto simp: metrics_def split: if_splits)

lemma newline_is_no_config_message:
  "err @ [CHR 0x0A] \<noteq> msg_key_cert" "err @ [CHR 0x0A] \<noteq> msg_certs_need_https"
  "err @ [CHR 0x0A] \<noteq> msg_cluster_size"
proof -
  have "last (err @ [CHR 0x0A]) = CHR 0x0A" by simp
  moreover have "last msg_key_cert \<noteq> CHR 0x0A" "last msg_certs_need_https \<noteq> CHR 0x0A"
    "last msg_cluster_size \<noteq> CHR 0x0A"
    by (simp_all add: msg_key_cert_def msg_certs_need_https_def msg_cluster_size_def)
  ultimately show "err @ [CHR 0x0A] \<noteq> msg_key_cert" "err @ [CHR 0x0A] \<noteq> msg_certs_need_https"
    "err @ [CHR 0x0A] \<noteq> msg_cluster_size"
    by metis+
qed

lemma check_tls_message:
  "check_tls t = Some msg \<Longrightarrow> msg = msg_key_cert \<or> msg = msg_certs_need_https"
  by (auto simp: check_tls_def split: if_splits)

lemma validation_fails_iff:
  "validation_fails lookup opts \<longleftrightarrow>
     check_tls (TLSFlags opts) \<noteq> None \<or>
     (seeding lookup opts \<and> ClusterSize (ClusterFlags opts) < 2)"
  by (auto simp: validation_fails_def check_tls_def)

lemma validation_fails_quiet:
  assumes "validation_fails lookup opts"
  shows "snd (main lookup http opts) \<in>
           {Fatal msg_key_cert, Fatal msg_certs_need_https, Fatal msg_cluster_size}"
    and "e \<in> set (fst (main lookup http opts)) \<Longrightarrow>
           \<not> is_cluster e \<and> \<not> is_build_grpc e \<and> \<not> is_serving e"
proof -
  have "snd (main lookup http opts) \<in>
           {Fatal msg_key_cert, Fatal msg_certs_need_https, Fatal msg_cluster_size} \<and>
        (e \<in> set (fst (main lookup http opts)) \<longrightarrow>
           \<not> is_cluster e \<and> \<not> is_build_grpc e \<and> \<not> is_serving e)"
  proof (cases rule: main_cases [of opts lookup http])
    case (tls msg)
    then show ?thesis using check_tls_message [OF tls(1)] init_logging_events [of e opts] by auto
  next
    case size
    then show ?thesis
      using init_logging_events [of e opts] seed_override_events [of e lookup "ClusterFlags opts"]
        new_cache_event [of opts]
      by auto
  next
    case (past cevs clusta)
    then have "\<not> (seeding lookup opts \<and> ClusterSize (ClusterFlags opts) < 2)"
      by (auto simp: setup_cluster_def)
    then show ?thesis using assms past(1) by (simp add: validation_fails_iff)
  qed
  then show "snd (main lookup http opts) \<in>
           {Fatal msg_key_cert, Fatal msg_certs_need_https, Fatal msg_cluster_size}"
    and "e \<in> set (fst (main lookup http opts)) \<Longrightarrow>
           \<not> is_cluster e \<and> \<not> is_build_grpc e \<and> \<not> is_serving e"
    by simp_all
qed

lemma validation_passes:
  assumes "\<not> validation_fails lookup opts"
  obtains cevs clusta where "check_tls (TLSFlags opts) = None"
    and "setup_cluster opts (seeding lookup opts) = Inr (cevs, clusta)"
proof (cases rule: main_cases [of opts lookup http])
  case (tls msg)
  then show ?thesis using assms by (simp add: validation_fails_iff)
next
  case size
  then show ?thesis using assms by (simp add: validation_fails_iff)
next
  case (past cevs clusta)
  then show ?thesis using that by blast
qed

lemma config_message_only_from_validation:
  assumes "snd (main lookup http opts) \<in>
           {Fatal msg_key_cert, Fatal msg_certs_need_https, Fatal msg_cluster_size}"
  shows "validation_fails lookup opts"
proof (rule ccontr)
  assume "\<not> validation_fails lookup opts"
  then obtain cevs clusta where c: "check_tls (TLSFlags opts) = None"
    and s: "setup_cluster opts (seeding lookup opts) = Inr (cevs, clusta)"
    by (rule validation_passes)
  show False
    using assms newline_is_no_config_message
    unfolding main_past_checks [OF c s, of http]
    by (auto split: option.splits)
qed

subsection \<open>Decimal numbers\<close>

lemma undec_append: "undec a (xs @ ys) = undec (undec a xs) ys"
  by (induction xs arbitrary: a) auto

lemma lt_10_cases:
  "d < 10 \<Longrightarrow> d = 0 \<or> d = 1 \<or> d = 2 \<or> d = 3 \<or> d = 4 \<or> d = 5 \<or> d = 6 \<or> d = 7 \<or> d = 8 \<or> d = (9::nat)"
  by arith

lemma digit_char_back: "d < 10 \<Longrightarrow> of_char (digit_char d) - 48 = d"
  by (drule lt_10_cases) (auto simp: digit_char_def)

lemma digit_char_is_digit: "d < 10 \<Longrightarrow> is_digit (digit_char d)"
  by (drule lt_10_cases) (auto simp: digit_char_def is_digit_def)

lemma undec_dec_nat: "undec 0 (dec_nat n) = n"
proof (induction n rule: dec_nat.induct)
  case (1 n)
  show ?case
  proof (cases "n < 10")
    case True
    then show ?thesis by (simp add: dec_nat.simps [of n] digit_char_back)
  next
    case False
    then have "undec 0 (dec_nat (n div 10)) = n div 10" using 1 by simp
    then show ?thesis using False
      by (simp add: dec_nat.simps [of n] undec_append digit_char_back)
  qed
qed

lemma dec_nat_inj: "dec_nat m = dec_nat n \<Longrightarrow> m = n"
  by (metis undec_dec_nat)

lemma dec_nat_digits: "c \<in> set (dec_nat n) \<Longrightarrow> is_digit c"
proof (induction n rule: dec_nat.induct)
  case (1 n)
  show ?case
  proof (cases "n < 10")
    case True
    then show ?thesis using 1(2) by (simp add: dec_nat.simps [of n] digit_char_is_digit)
  next
    case False
    then show ?thesis using 1
      by (auto simp: dec_nat.simps [of n] digit_char_is_digit)
  qed
qed

lemma dec_nat_no_minus: "dec_nat n \<noteq> CHR ''-'' # cs"
proof
  assume "dec_nat n = CHR ''-'' # cs"
  then have "CHR ''-'' \<in> set (dec_nat n)" by simp
  then have "is_digit CHR ''-''" by (rule dec_nat_digits)
  then show False by (simp add: is_digit_def)
qed

lemma dec_int_inj: "dec_int i = dec_int j \<Longrightarrow> i = j"
  using dec_nat_no_minus dec_nat_no_minus [symmetric]
  by (auto simp: dec_int_def split: if_splits dest!: dec_nat_inj)

lemma dec_int_chars: "c \<in> set (dec_int i) \<Longrightarrow> is_digit c \<or> c = CHR ''-''"
  by (auto simp: dec_int_def dec_nat_digits split: if_splits)

lemma append_sep_eq:
  "s \<notin> set xs \<Longrightarrow> s \<notin> set ys \<Longrightarrow> xs @ s # r = ys @ s # r' \<Longrightarrow> xs = ys \<and> r = r'"
proof (induction xs arbitrary: ys)
  case Nil
  then show ?case by (cases ys) auto
next
  case (Cons x xs)
  then show ?case by (cases ys) auto
qed

lemma status_body_inj:
  assumes "body (status_handler t n) = body (status_handler t' n')"
  shows "t = t' \<and> n = n'"
proof -
  have sp: "CHR '' '' \<notin> set (dec_int i)" for i
    using dec_int_chars [of "CHR '' ''" i] by (auto simp: is_digit_def)
  from assms have
    "dec_int t @ CHR '' '' # (''bytes'' @ [CHR 0x0A] @ ''Num files: '' @ dec_int n @ [CHR 0x0A])
     = dec_int t' @ CHR '' '' # (''bytes'' @ [CHR 0x0A] @ ''Num files: '' @ dec_int n' @ [CHR 0x0A])"
    by (simp add: status_handler_def)
  from append_sep_eq [OF sp sp this]
  have a: "dec_int t = dec_int t'" and "dec_int n @ [CHR 0x0A] = dec_int n' @ [CHR 0x0A]"
    by simp_all
  then have "dec_int n = dec_int n'" by simp
  with a show ?thesis by (simp add: dec_int_inj)
qed

lemma dec_samples:
  "dec_int 8080 = ''8080''" "dec_int 1024 = ''1024''" "dec_int 3 = ''3''"
  "dec_int (- 1) = ''-1''"
  by (simp_all add: dec_int_def dec_nat.simps digit_char_def)

subsection \<open>The TLS flags\<close>

text \<open>
  Claim C9. A configuration that gives exactly one of \<open>--key_file\<close> and \<open>--cert_file\<close>
  ends in \<open>log.Fatalf\<close> at line 64: the only calls made before are those that set up
  logging, so neither the cache nor a cluster component nor the gRPC server has been
  constructed, and nothing is being served.
\<close>

theorem incomplete_key_cert_pair_is_fatal:
  assumes "(KeyFile (TLSFlags opts) = '''') \<noteq> (CertFile (TLSFlags opts) = '''')"
  shows "main lookup http opts = (init_logging opts, Fatal msg_key_cert) \<and>
         (\<forall>e \<in> set (fst (main lookup http opts)).
            \<not> is_new_cache e \<and> \<not> is_cluster e \<and> \<not> is_build_grpc e \<and> \<not> is_serving e)"
proof -
  from assms have "check_tls (TLSFlags opts) = Some msg_key_cert"
    by (simp add: check_tls_def)
  then have "main lookup http opts = (init_logging opts, Fatal msg_key_cert)"
    by (rule main_tls_fatal)
  then show ?thesis
    using init_logging_events by auto
qed

theorem incomplete_key_cert_pair_is_fatal_witness:
  "(KeyFile (TLSFlags opts_key_only) = '''') \<noteq> (CertFile (TLSFlags opts_key_only) = '''') \<and>
   main resolves listeners_serve opts_key_only = ([InitLogging 2], Fatal msg_key_cert)"
  using incomplete_key_cert_pair_is_fatal [of opts_key_only resolves]
  by (simp add: opts_key_only_def opts_with_tls_def sample_opts_def init_logging_def)

text \<open>
  Claim C3. A configuration that gives \<open>--writable_certs\<close> or \<open>--readonly_certs\<close> while
  the key file or the certificate file of the server is missing ends in \<open>log.Fatalf\<close>
  at line 64 (one of the two is missing) or at line 66 (both are): again only logging
  has been set up, so the failure comes before the cache and the server are constructed
  and cannot show up later, while serving.
\<close>

theorem client_certs_without_server_pair_is_fatal:
  assumes "WritableCerts (TLSFlags opts) \<noteq> '''' \<or> ReadonlyCerts (TLSFlags opts) \<noteq> ''''"
    and "KeyFile (TLSFlags opts) = '''' \<or> CertFile (TLSFlags opts) = ''''"
  shows "main lookup http opts =
           (init_logging opts,
            Fatal (if KeyFile (TLSFlags opts) = '''' \<and> CertFile (TLSFlags opts) = ''''
                   then msg_certs_need_https else msg_key_cert)) \<and>
         (\<forall>e \<in> set (fst (main lookup http opts)).
            \<not> is_new_cache e \<and> \<not> is_cluster e \<and> \<not> is_build_grpc e \<and> \<not> is_serving e)"
proof -
  from assms have "check_tls (TLSFlags opts) =
      Some (if KeyFile (TLSFlags opts) = '''' \<and> CertFile (TLSFlags opts) = ''''
            then msg_certs_need_https else msg_key_cert)"
    by (auto simp: check_tls_def)
  then have "main lookup http opts =
      (init_logging opts,
       Fatal (if KeyFile (TLSFlags opts) = '''' \<and> CertFile (TLSFlags opts) = ''''
              then msg_certs_need_https else msg_key_cert))"
    by (rule main_tls_fatal)
  then show ?thesis
    using init_logging_events by auto
qed

theorem client_certs_without_server_pair_is_fatal_witness:
  "WritableCerts (TLSFlags opts_writable_only) = ''writers'' \<and>
   KeyFile (TLSFlags opts_writable_only) = '''' \<and>
   main resolves listeners_serve opts_writable_only = ([InitLogging 2], Fatal msg_certs_need_https)"
  using client_certs_without_server_pair_is_fatal [of opts_writable_only resolves]
  by (simp add: opts_writable_only_def opts_with_tls_def sample_opts_def init_logging_def)

subsection \<open>Fatal configuration errors come before serving\<close>

text \<open>
  Claim C7. Whenever the validation of the configuration fails (key and certificate not
  given together, client certificates without a server key, or seeding with a cluster
  size below two), the process ends in \<open>log.Fatalf\<close> with the message of that check,
  and none of the calls made so far creates a cluster component, builds the gRPC server
  or starts a listener: the status endpoint, the metrics endpoint and
  \<open>ServeGrpcForever\<close> all come later in \<open>main\<close>. Conversely the process ends with
  one of these three messages only when the validation fails; the one other fatal end,
  a status listener that returns, has another message.
\<close>

theorem config_error_ends_before_serving:
  "(validation_fails lookup opts \<longleftrightarrow>
      snd (main lookup http opts) \<in>
        {Fatal msg_key_cert, Fatal msg_certs_need_https, Fatal msg_cluster_size}) \<and>
   (validation_fails lookup opts \<longrightarrow>
      (\<forall>e \<in> set (fst (main lookup http opts)).
         \<not> is_cluster e \<and> \<not> is_build_grpc e \<and> \<not> is_serving e))"
  using validation_fails_quiet [where lookup = lookup and opts = opts and http = http]
    config_message_only_from_validation [of lookup http opts]
  by blast

theorem config_error_ends_before_serving_witness:
  "validation_fails resolves opts_seed_small \<and>
   main resolves listeners_fail opts_seed_small =
     ([InitLogging 2, NewCache ''plz-rpc-cache'' 600 2592000 18000000000 20000000000],
      Fatal msg_cluster_size) \<and>
   \<not> list_ex is_build_grpc (fst (main resolves listeners_fail opts_seed_small)) \<and>
   \<not> list_ex is_serving (fst (main resolves listeners_fail opts_seed_small)) \<and>
   \<not> validation_fails resolves opts_bad_port \<and>
   main resolves listeners_fail opts_bad_port =
     ([InitLogging 2, NewCache ''plz-rpc-cache'' 600 2592000 18000000000 20000000000,
       HandleFunc ''/'', GoListenAndServe '':-1''],
      Fatal (''listen failed'' @ [CHR 0x0A]))"
proof -
  have v: "validation_fails resolves opts_seed_small"
    by (simp add: validation_fails_def opts_seed_small_def run_defs)
  have m: "main resolves listeners_fail opts_seed_small =
     ([InitLogging 2, NewCache ''plz-rpc-cache'' 600 2592000 18000000000 20000000000],
      Fatal msg_cluster_size)"
    by (simp add: opts_seed_small_def run_defs)
  have b: "main resolves listeners_fail opts_bad_port =
     ([InitLogging 2, NewCache ''plz-rpc-cache'' 600 2592000 18000000000 20000000000,
       HandleFunc ''/'', GoListenAndServe '':-1''],
      Fatal (''listen failed'' @ [CHR 0x0A]))"
    by (simp add: opts_bad_port_def run_defs dec_samples)
  from config_error_ends_before_serving [of resolves opts_seed_small listeners_fail]
    config_error_ends_before_serving [of resolves opts_bad_port listeners_fail] v m b
  show ?thesis
    by (simp add: list_ex_iff msg_key_cert_def msg_certs_need_https_def msg_cluster_size_def)
qed

subsection \<open>Seeding and the cluster size\<close>

text \<open>
  Claim C2, as the program has it. Line 79 reads \<open>SeedCluster\<close> after lines 75 to 78
  may have overwritten it, so what counts is \<open>seeding\<close>: the flag itself when
  \<open>--seed_if\<close> is empty or differs from the node name, the failure of the address
  lookup otherwise. Whenever the node is seeding in this sense and the cluster size is
  below two, the process ends in \<open>log.Fatalf\<close> with nothing built or served (with the
  cluster size message when the TLS flags pass their checks). When the cluster size is at
  least two and the TLS flags pass their checks, seeding proceeds: \<open>cluster.NewCluster\<close>
  is called with the cluster port, the port, the node name and the advertised address,
  \<open>Init\<close> is called with the cluster size, and nothing is joined. Unless the status
  listener returns and ends the process, the gRPC server is then built with this cluster
  and the process serves.
\<close>

theorem seeding_needs_cluster_size:
  assumes "seeding lookup opts"
  shows "(ClusterSize (ClusterFlags opts) < 2 \<longrightarrow>
            (\<exists>msg. snd (main lookup http opts) = Fatal msg) \<and>
            (check_tls (TLSFlags opts) = None \<longrightarrow>
               snd (main lookup http opts) = Fatal msg_cluster_size) \<and>
            (\<forall>e \<in> set (fst (main lookup http opts)).
               \<not> is_cluster e \<and> \<not> is_build_grpc e \<and> \<not> is_serving e)) \<and>
         (2 \<le> ClusterSize (ClusterFlags opts) \<and> check_tls (TLSFlags opts) = None \<longrightarrow>
            NewCluster (ClusterPort (ClusterFlags opts)) (Port opts) (NodeName (ClusterFlags opts))
              (AdvertiseAddr (ClusterFlags opts)) \<in> set (fst (main lookup http opts)) \<and>
            ClusterInit (ClusterSize (ClusterFlags opts)) \<in> set (fst (main lookup http opts)) \<and>
            (\<forall>e \<in> set (fst (main lookup http opts)). \<not> is_join e) \<and>
            (status_listener http opts = None \<longrightarrow>
               snd (main lookup http opts) = Serving \<and>
               BuildGrpcServer (Port opts)
                 (Some \<lparr>gossip_port = ClusterPort (ClusterFlags opts), rpc_port = Port opts,
                        node_name = NodeName (ClusterFlags opts),
                        advertise_addr = AdvertiseAddr (ClusterFlags opts)\<rparr>)
                 (KeyFile (TLSFlags opts)) (CertFile (TLSFlags opts)) (CACertFile (TLSFlags opts))
                 (ReadonlyCerts (TLSFlags opts)) (WritableCerts (TLSFlags opts))
               \<in> set (fst (main lookup http opts)) \<and>
               ServeGrpcForever \<in> set (fst (main lookup http opts))))"
proof (intro conjI impI)
  assume small: "ClusterSize (ClusterFlags opts) < 2"
  with assms have vf: "validation_fails lookup opts"
    by (simp add: validation_fails_def)
  show "\<exists>msg. snd (main lookup http opts) = Fatal msg"
    using validation_fails_quiet(1) [OF vf, of http] by auto
  show "\<forall>e \<in> set (fst (main lookup http opts)).
      \<not> is_cluster e \<and> \<not> is_build_grpc e \<and> \<not> is_serving e"
    using validation_fails_quiet(2) [OF vf, of _ http] by blast
  assume "check_tls (TLSFlags opts) = None"
  then show "snd (main lookup http opts) = Fatal msg_cluster_size"
    using main_size_fatal [OF _ assms small] by simp
next
  assume a: "2 \<le> ClusterSize (ClusterFlags opts) \<and> check_tls (TLSFlags opts) = None"
  then have c: "check_tls (TLSFlags opts) = None" by simp
  have sc: "setup_cluster opts (seeding lookup opts) =
      Inr ([new_cluster_event opts, ClusterInit (ClusterSize (ClusterFlags opts))],
           Some (new_cluster opts))"
    using a assms setup_cluster_seed [of opts] by simp
  note lower = past_checks_trace(1) [OF c sc, of http]
  note upper = past_checks_trace(2) [OF c sc, of http]
  show "NewCluster (ClusterPort (ClusterFlags opts)) (Port opts) (NodeName (ClusterFlags opts))
          (AdvertiseAddr (ClusterFlags opts)) \<in> set (fst (main lookup http opts))"
    using lower by (auto simp: new_cluster_event_def)
  show "ClusterInit (ClusterSize (ClusterFlags opts)) \<in> set (fst (main lookup http opts))"
    using lower by auto
  show "\<forall>e \<in> set (fst (main lookup http opts)). \<not> is_join e"
  proof
    fix e
    assume "e \<in> set (fst (main lookup http opts))"
    then show "\<not> is_join e"
      using upper init_logging_events2 [of e opts]
        seed_override_events2 [of e lookup "ClusterFlags opts"]
        http_status_events [of e opts] metrics_events [of e opts]
      by (auto simp: new_cache_def build_grpc_def new_cluster_event_def)
  qed
  assume st: "status_listener http opts = None"
  show "snd (main lookup http opts) = Serving"
    by (rule past_checks_serving(1) [OF c sc st])
  show "BuildGrpcServer (Port opts)
          (Some \<lparr>gossip_port = ClusterPort (ClusterFlags opts), rpc_port = Port opts,
                 node_name = NodeName (ClusterFlags opts),
                 advertise_addr = AdvertiseAddr (ClusterFlags opts)\<rparr>)
          (KeyFile (TLSFlags opts)) (CertFile (TLSFlags opts)) (CACertFile (TLSFlags opts))
          (ReadonlyCerts (TLSFlags opts)) (WritableCerts (TLSFlags opts))
        \<in> set (fst (main lookup http opts))"
    using past_checks_serving(2) [OF c sc st] by (simp add: build_grpc_def new_cluster_def)
  show "ServeGrpcForever \<in> set (fst (main lookup http opts))"
    by (rule past_checks_serving(3) [OF c sc st])
qed

theorem seeding_needs_cluster_size_witness:
  "seeding resolves opts_seed_small \<and> ClusterSize (ClusterFlags opts_seed_small) < 2 \<and>
   main resolves listeners_serve opts_seed_small =
     ([InitLogging 2, NewCache ''plz-rpc-cache'' 600 2592000 18000000000 20000000000],
      Fatal msg_cluster_size) \<and>
   seeding resolves opts_seed_bad_port \<and> ClusterSize (ClusterFlags opts_seed_bad_port) = 3 \<and>
   main resolves listeners_fail opts_seed_bad_port =
     ([InitLogging 2, NewCache ''plz-rpc-cache'' 600 2592000 18000000000 20000000000,
       NewCluster 7946 7677 '''' '''', ClusterInit 3, HandleFunc ''/'', GoListenAndServe '':-1''],
      Fatal (''listen failed'' @ [CHR 0x0A])) \<and>
   main resolves listeners_serve opts_seed_bad_port =
     ([InitLogging 2, NewCache ''plz-rpc-cache'' 600 2592000 18000000000 20000000000,
       NewCluster 7946 7677 '''' '''', ClusterInit 3, HandleFunc ''/'', GoListenAndServe '':-1'',
       BuildGrpcServer 7677
         (Some \<lparr>gossip_port = 7946, rpc_port = 7677, node_name = '''', advertise_addr = ''''\<rparr>)
         '''' '''' '''' '''' '''',
       ServeGrpcForever],
      Serving)"
  using seeding_needs_cluster_size [of resolves opts_seed_small listeners_serve]
    seeding_needs_cluster_size [of resolves opts_seed_bad_port listeners_fail]
    seeding_needs_cluster_size [of resolves opts_seed_bad_port listeners_serve]
  by (simp add: opts_seed_small_def opts_seed_bad_port_def run_defs dec_samples)

text \<open>
  Claim C2 as stated fails: with \<open>--seed_cluster\<close> set, a cluster size of 0, and
  \<open>--seed_if\<close> equal to the node name, a successful lookup of the cluster addresses
  turns \<open>SeedCluster\<close> off at line 77; the size is never checked, the node joins the
  peer and serves.
\<close>

theorem seed_flag_small_size_serves:
  "SeedCluster (ClusterFlags opts_seed_if_peer) \<and>
   ClusterSize (ClusterFlags opts_seed_if_peer) < 2 \<and>
   main resolves listeners_serve opts_seed_if_peer =
     ([InitLogging 2, NewCache ''plz-rpc-cache'' 600 2592000 18000000000 20000000000,
       LookupIP ''peer'', NewCluster 7946 7677 ''cache-0'' '''', ClusterJoin [''peer''],
       BuildGrpcServer 7677
         (Some \<lparr>gossip_port = 7946, rpc_port = 7677, node_name = ''cache-0'', advertise_addr = ''''\<rparr>)
         '''' '''' '''' '''' '''',
       ServeGrpcForever],
      Serving)"
  by (simp add: opts_seed_if_peer_def run_defs)

subsection \<open>Seeding or joining\<close>

text \<open>
  Claim C4, as the program has it. Take a configuration that passes the TLS checks, gives
  cluster addresses and a cluster size of at least two. If \<open>--seed_if\<close> is set and
  equals the node name then, whatever \<open>--seed_cluster\<close> says, the node joins the given
  addresses when their lookup finds at least one address, and seeds a new cluster when
  the lookup fails or finds none. If \<open>--seed_if\<close> is empty or differs from the node
  name, a node with \<open>--seed_cluster\<close> seeds: no lookup is made and the addresses are
  not joined.
\<close>

theorem seed_if_decides_by_resolution:
  assumes "check_tls (TLSFlags opts) = None"
    and "ClusterAddresses (ClusterFlags opts) \<noteq> ''''"
    and "2 \<le> ClusterSize (ClusterFlags opts)"
  shows "(SeedIf (ClusterFlags opts) \<noteq> '''' \<and> SeedIf (ClusterFlags opts) = NodeName (ClusterFlags opts) \<longrightarrow>
            (if \<exists>ips. lookup (ClusterAddresses (ClusterFlags opts)) = Inr ips \<and> ips \<noteq> []
             then ClusterJoin (split_on CHR '','' (ClusterAddresses (ClusterFlags opts)))
                    \<in> set (fst (main lookup http opts)) \<and>
                  (\<forall>e \<in> set (fst (main lookup http opts)). \<not> is_init e)
             else ClusterInit (ClusterSize (ClusterFlags opts)) \<in> set (fst (main lookup http opts)) \<and>
                  (\<forall>e \<in> set (fst (main lookup http opts)). \<not> is_join e))) \<and>
         (\<not> (SeedIf (ClusterFlags opts) \<noteq> '''' \<and> SeedIf (ClusterFlags opts) = NodeName (ClusterFlags opts)) \<and>
          SeedCluster (ClusterFlags opts) \<longrightarrow>
            ClusterInit (ClusterSize (ClusterFlags opts)) \<in> set (fst (main lookup http opts)) \<and>
            (\<forall>e \<in> set (fst (main lookup http opts)). \<not> is_join e \<and> \<not> is_lookup e))"
proof -
  let ?tr = "fst (main lookup http opts)"
  let ?init = "ClusterInit (ClusterSize (ClusterFlags opts))"
  let ?join = "ClusterJoin (split_on CHR '','' (ClusterAddresses (ClusterFlags opts)))"
  have quiet: "\<not> is_init e \<and> \<not> is_join e"
    if "e \<in> set (init_logging opts) \<union> {new_cache opts} \<union>
            set (fst (seed_override lookup (ClusterFlags opts))) \<union>
            set (http_status opts) \<union> {build_grpc opts clusta} \<union> set (metrics opts) \<union>
            {ServeGrpcForever}" for e clusta
    using that init_logging_events2 [of e opts] seed_override_events2 [of e lookup "ClusterFlags opts"]
      http_status_events [of e opts] metrics_events [of e opts]
    by (auto simp: new_cache_def build_grpc_def)
  have seed: "?init \<in> set ?tr \<and> (\<forall>e \<in> set ?tr. \<not> is_join e)" if "seeding lookup opts"
  proof -
    have sc: "setup_cluster opts (seeding lookup opts) =
        Inr ([new_cluster_event opts, ?init], Some (new_cluster opts))"
      using that setup_cluster_seed [OF assms(3)] by simp
    have "?init \<in> set ?tr"
      using past_checks_trace(1) [OF assms(1) sc, of http] by auto
    moreover have "\<not> is_join e" if "e \<in> set ?tr" for e
      using that past_checks_trace(2) [OF assms(1) sc, of http]
        quiet [of e "Some (new_cluster opts)"]
      by (auto simp: new_cluster_event_def)
    ultimately show ?thesis by blast
  qed
  have join: "?join \<in> set ?tr \<and> (\<forall>e \<in> set ?tr. \<not> is_init e)" if "\<not> seeding lookup opts"
  proof -
    have sc: "setup_cluster opts (seeding lookup opts) =
        Inr ([new_cluster_event opts, ?join], Some (new_cluster opts))"
      using that setup_cluster_join [OF assms(2)] by simp
    have "?join \<in> set ?tr"
      using past_checks_trace(1) [OF assms(1) sc, of http] by auto
    moreover have "\<not> is_init e" if "e \<in> set ?tr" for e
      using that past_checks_trace(2) [OF assms(1) sc, of http]
        quiet [of e "Some (new_cluster opts)"]
      by (auto simp: new_cluster_event_def)
    ultimately show ?thesis by blast
  qed
  have no_lookup: "\<forall>e \<in> set ?tr. \<not> is_lookup e"
    if ns: "\<not> (SeedIf (ClusterFlags opts) \<noteq> '''' \<and> SeedIf (ClusterFlags opts) = NodeName (ClusterFlags opts))"
      and s: "SeedCluster (ClusterFlags opts)"
  proof -
    have so: "seed_override lookup (ClusterFlags opts) = ([], True)"
      using seed_override_no_lookup [OF ns] s by simp
    then have "seeding lookup opts" by (simp add: seeding_def)
    then have sc: "setup_cluster opts (seeding lookup opts) =
        Inr ([new_cluster_event opts, ?init], Some (new_cluster opts))"
      using setup_cluster_seed [OF assms(3)] by simp
    have "\<not> is_lookup e" if "e \<in> set ?tr" for e
      using that past_checks_trace(2) [OF assms(1) sc, of http]
        init_logging_events2 [of e opts] http_status_events [of e opts] metrics_events [of e opts]
      unfolding so
      by (auto simp: new_cluster_event_def new_cache_def build_grpc_def)
    then show ?thesis by blast
  qed
  show ?thesis
  proof (intro conjI impI)
    assume a: "SeedIf (ClusterFlags opts) \<noteq> '''' \<and> SeedIf (ClusterFlags opts) = NodeName (ClusterFlags opts)"
    then have "seeding lookup opts \<longleftrightarrow>
        \<not> (\<exists>ips. lookup (ClusterAddresses (ClusterFlags opts)) = Inr ips \<and> ips \<noteq> [])"
      using seeding_seed_if by blast
    then show "if \<exists>ips. lookup (ClusterAddresses (ClusterFlags opts)) = Inr ips \<and> ips \<noteq> []
       then ?join \<in> set ?tr \<and> (\<forall>e \<in> set ?tr. \<not> is_init e)
       else ?init \<in> set ?tr \<and> (\<forall>e \<in> set ?tr. \<not> is_join e)"
      using seed join by (simp split: if_splits)
  next
    assume b: "\<not> (SeedIf (ClusterFlags opts) \<noteq> '''' \<and> SeedIf (ClusterFlags opts) = NodeName (ClusterFlags opts)) \<and>
        SeedCluster (ClusterFlags opts)"
    then have s: "seeding lookup opts"
      using seed_override_no_lookup [of "ClusterFlags opts" lookup] by (simp add: seeding_def)
    then show "?init \<in> set ?tr" using seed by blast
    show "\<forall>e \<in> set ?tr. \<not> is_join e \<and> \<not> is_lookup e"
      using seed [OF s] no_lookup b by blast
  qed
qed

theorem seed_if_decides_by_resolution_witness:
  "check_tls (TLSFlags opts_seed_if_three) = None \<and>
   ClusterAddresses (ClusterFlags opts_seed_if_three) \<noteq> '''' \<and>
   2 \<le> ClusterSize (ClusterFlags opts_seed_if_three) \<and>
   SeedIf (ClusterFlags opts_seed_if_three) = NodeName (ClusterFlags opts_seed_if_three) \<and>
   ClusterJoin [''peer''] \<in> set (fst (main resolves listeners_serve opts_seed_if_three)) \<and>
   ClusterInit 3 \<in> set (fst (main resolve_fails listeners_serve opts_seed_if_three))"
  using seed_if_decides_by_resolution [of opts_seed_if_three resolves listeners_serve]
    seed_if_decides_by_resolution [of opts_seed_if_three resolve_fails listeners_serve]
  by (simp add: opts_seed_if_three_def opts_with_cluster_def sample_opts_def check_tls_def
      resolves_def resolve_fails_def)

text \<open>
  Claim C4 as stated fails: a configuration that sets \<open>--seed_cluster\<close> and gives a
  cluster address that resolves, but no \<open>--seed_if\<close>, seeds a new cluster of the given
  size; it makes no lookup and does not join the peer.
\<close>

theorem seed_flag_with_resolving_peers_seeds:
  "SeedCluster (ClusterFlags opts_seed_and_peers) \<and>
   ClusterAddresses (ClusterFlags opts_seed_and_peers) \<noteq> '''' \<and>
   resolves (ClusterAddresses (ClusterFlags opts_seed_and_peers)) = Inr [''10.0.0.1''] \<and>
   main resolves listeners_serve opts_seed_and_peers =
     ([InitLogging 2, NewCache ''plz-rpc-cache'' 600 2592000 18000000000 20000000000,
       NewCluster 7946 7677 '''' '''', ClusterInit 3,
       BuildGrpcServer 7677
         (Some \<lparr>gossip_port = 7946, rpc_port = 7677, node_name = '''', advertise_addr = ''''\<rparr>)
         '''' '''' '''' '''' '''',
       ServeGrpcForever],
      Serving)"
  by (simp add: opts_seed_and_peers_def run_defs)

subsection \<open>A node without a cluster\<close>



subsection \<open>The status endpoint\<close>

text \<open>
  Claim C8. When \<open>--http_port\<close> is not zero and the configuration passes the startup
  checks, a handler is registered for \<open>/\<close> and one listener is started on that port:
  with TLS, on the server's certificate and key, when a key file is configured, and in
  plaintext otherwise, never both. The handler answers with the two counters of the
  cache, the total size in bytes and the number of files, in decimal, and with nothing
  else: the answer determines both counters.
\<close>

theorem status_endpoint:
  assumes "HTTPPort opts \<noteq> 0" and "\<not> validation_fails lookup opts"
  shows "HandleFunc ''/'' \<in> set (fst (main lookup http opts)) \<and>
         (if KeyFile (TLSFlags opts) \<noteq> ''''
          then GoListenAndServeTLS (CHR '':'' # dec_int (HTTPPort opts)) (CertFile (TLSFlags opts))
                 (KeyFile (TLSFlags opts)) \<in> set (fst (main lookup http opts)) \<and>
               (\<forall>e \<in> set (fst (main lookup http opts)). \<not> is_plain_listener e)
          else GoListenAndServe (CHR '':'' # dec_int (HTTPPort opts)) \<in> set (fst (main lookup http opts)) \<and>
               (\<forall>e \<in> set (fst (main lookup http opts)). \<not> is_tls_listener e)) \<and>
         body (status_handler size_total file_count) =
           ''Total size: '' @ dec_int size_total @ '' bytes'' @ [CHR 0x0A] @
           ''Num files: '' @ dec_int file_count @ [CHR 0x0A] \<and>
         (\<forall>t n. body (status_handler t n) = body (status_handler size_total file_count) \<longrightarrow>
            t = size_total \<and> n = file_count)"
proof -
  from assms(2) obtain cevs clusta where c: "check_tls (TLSFlags opts) = None"
    and sc: "setup_cluster opts (seeding lookup opts) = Inr (cevs, clusta)"
    by (rule validation_passes)
  note lower = past_checks_trace(1) [OF c sc, of http]
  note upper = past_checks_trace(2) [OF c sc, of http]
  have other: "\<not> is_tls_listener e \<and> \<not> is_plain_listener e"
    if "e \<in> set (init_logging opts) \<union> {new_cache opts} \<union>
      set (fst (seed_override lookup (ClusterFlags opts))) \<union> set cevs \<union>
      {build_grpc opts clusta} \<union> set (metrics opts) \<union> {ServeGrpcForever}" for e
    using that init_logging_events2 [of e opts] seed_override_events2 [of e lookup "ClusterFlags opts"]
      metrics_events [of e opts] cluster_events_no_listener [OF sc, of e]
    by (auto simp: new_cache_def build_grpc_def)
  have h: "HandleFunc ''/'' \<in> set (fst (main lookup http opts))"
    using lower http_status_listeners(1) [OF assms(1)] by auto
  have l: "if KeyFile (TLSFlags opts) \<noteq> ''''
          then GoListenAndServeTLS (CHR '':'' # dec_int (HTTPPort opts)) (CertFile (TLSFlags opts))
                 (KeyFile (TLSFlags opts)) \<in> set (fst (main lookup http opts)) \<and>
               (\<forall>e \<in> set (fst (main lookup http opts)). \<not> is_plain_listener e)
          else GoListenAndServe (CHR '':'' # dec_int (HTTPPort opts)) \<in> set (fst (main lookup http opts)) \<and>
               (\<forall>e \<in> set (fst (main lookup http opts)). \<not> is_tls_listener e)"
  proof (cases "KeyFile (TLSFlags opts) = ''''")
    case True
    have "GoListenAndServe (CHR '':'' # dec_int (HTTPPort opts)) \<in> set (fst (main lookup http opts))"
      using lower http_status_listeners(3) [OF assms(1) True] by auto
    moreover have "\<not> is_tls_listener e" if "e \<in> set (fst (main lookup http opts))" for e
      using that upper http_status_listeners(3) [OF assms(1) True] other [of e] by auto
    ultimately show ?thesis using True by simp
  next
    case False
    have "GoListenAndServeTLS (CHR '':'' # dec_int (HTTPPort opts)) (CertFile (TLSFlags opts))
            (KeyFile (TLSFlags opts)) \<in> set (fst (main lookup http opts))"
      using lower http_status_listeners(2) [OF assms(1) False] by auto
    moreover have "\<not> is_plain_listener e" if "e \<in> set (fst (main lookup http opts))" for e
      using that upper http_status_listeners(2) [OF assms(1) False] other [of e] by auto
    ultimately show ?thesis using False by simp
  qed
  have b: "body (status_handler size_total file_count) =
           ''Total size: '' @ dec_int size_total @ '' bytes'' @ [CHR 0x0A] @
           ''Num files: '' @ dec_int file_count @ [CHR 0x0A]"
    by (simp add: status_handler_def)
  have i: "\<forall>t n. body (status_handler t n) = body (status_handler size_total file_count) \<longrightarrow>
            t = size_total \<and> n = file_count"
    using status_body_inj by blast
  from h l b i show ?thesis by blast
qed

theorem status_endpoint_witness:
  "HTTPPort opts_status_tls \<noteq> 0 \<and> \<not> validation_fails resolves opts_status_tls \<and>
   snd (main resolves listeners_serve opts_status_tls) = Serving \<and>
   GoListenAndServeTLS '':8080'' ''server.crt'' ''server.key''
     \<in> set (fst (main resolves listeners_serve opts_status_tls)) \<and>
   GoListenAndServe '':8080'' \<notin> set (fst (main resolves listeners_serve opts_status_tls)) \<and>
   GoListenAndServeTLS '':8080'' ''server.crt'' ''server.key''
     \<in> set (fst (main resolves listeners_fail opts_status_tls)) \<and>
   body (status_handler 1024 3) =
     ''Total size: 1024 bytes'' @ [CHR 0x0A] @ ''Num files: 3'' @ [CHR 0x0A]"
proof -
  have a: "HTTPPort opts_status_tls \<noteq> 0" by (simp add: opts_status_tls_def)
  have v: "\<not> validation_fails resolves opts_status_tls"
    by (simp add: validation_fails_def opts_status_tls_def run_defs)
  have b: "snd (main resolves listeners_serve opts_status_tls) = Serving"
    by (simp add: opts_status_tls_def run_defs)
  have k: "KeyFile (TLSFlags opts_status_tls) = ''server.key''"
       "CertFile (TLSFlags opts_status_tls) = ''server.crt''"
       "HTTPPort opts_status_tls = 8080"
    by (simp_all add: opts_status_tls_def)
  from status_endpoint [OF a v, of listeners_serve 1024 3]
    status_endpoint [OF a v, of listeners_fail 1024 3] a v b
  show ?thesis
    by (auto simp: k dec_samples)
qed

section \<open>Properties of the store, the evictor and the router\<close>

subsection \<open>One store\<close>

lemma store_inv_empty: "store_inv empty_store"
  by (simp add: store_inv_def empty_store_def)

lemma size_le_sum:
  "(k, a) \<in> set xs \<Longrightarrow> art_size a \<le> sum_list (map (\<lambda>(k, a). art_size a) xs)"
  by (induction xs) auto

lemma sum_sizes_update_new:
  "k \<notin> fst ` set xs \<Longrightarrow>
   sum_list (map (\<lambda>(k, a). art_size a) (AList.update k v xs)) =
   sum_list (map (\<lambda>(k, a). art_size a) xs) + art_size v"
  by (induction xs) auto

lemma sum_sizes_update_old:
  "distinct (map fst xs) \<Longrightarrow> (k, a) \<in> set xs \<Longrightarrow>
   sum_list (map (\<lambda>(k, a). art_size a) (AList.update k v xs)) =
   sum_list (map (\<lambda>(k, a). art_size a) xs) - art_size a + art_size v"
proof (induction xs)
  case Nil
  then show ?case by simp
next
  case (Cons x xs)
  obtain k' a' where x: "x = (k', a')" by (cases x)
  show ?case
  proof (cases "k' = k")
    case True
    then have "a' = a" using Cons.prems x by force
    then show ?thesis using True x by simp
  next
    case False
    then have in_xs: "(k, a) \<in> set xs" using Cons.prems x by auto
    then have "art_size a \<le> sum_list (map (\<lambda>(k, a). art_size a) xs)"
      by (induction xs) auto
    then show ?thesis using False x Cons in_xs by simp
  qed
qed

lemma list_all_update:
  "list_all P xs \<Longrightarrow> P (k, v) \<Longrightarrow> list_all P (AList.update k v xs)"
  by (induction xs) auto

lemma store_inv_Put:
  assumes "store_inv st" and "Put io_ok now key bytes st = Inr st'"
  shows "store_inv st'"
proof -
  let ?a = "\<lparr>payload = bytes, art_size = length bytes, created = now, last_access = now\<rparr>"
  have d: "distinct (map fst (artifacts st))"
    and l: "list_all (\<lambda>(k, a). art_size a = length (payload a)) (artifacts st)"
    and t: "total_size st = sum_list (map (\<lambda>(k, a). art_size a) (artifacts st))"
    using assms(1) by (simp_all add: store_inv_def)
  have st': "st' = \<lparr>artifacts = AList.update key ?a (artifacts st),
      total_size = total_size st
        - (case resident st key of None \<Rightarrow> 0 | Some a \<Rightarrow> art_size a) + length bytes\<rparr>"
    using assms(2) by (simp add: Put_def Let_def split: if_splits)
  have "total_size st' = sum_list (map (\<lambda>(k, a). art_size a) (artifacts st'))"
  proof (cases "resident st key")
    case None
    then have "key \<notin> fst ` set (artifacts st)"
      by (simp add: resident_def map_of_eq_None_iff)
    then show ?thesis
      using None t by (simp add: st' sum_sizes_update_new)
  next
    case (Some a)
    then have "(key, a) \<in> set (artifacts st)"
      by (simp add: resident_def map_of_SomeD)
    then show ?thesis
      using Some t d by (simp add: st' sum_sizes_update_old)
  qed
  moreover have "distinct (map fst (artifacts st'))"
    using d by (simp add: st' distinct_update)
  moreover have "list_all (\<lambda>(k, a). art_size a = length (payload a)) (artifacts st')"
    using l by (simp add: st' list_all_update)
  ultimately show ?thesis by (simp add: store_inv_def)
qed

lemma store_inv_touch: "store_inv st \<Longrightarrow> store_inv (touch now key st)"
proof (cases "resident st key")
  case None
  assume "store_inv st"
  then show ?thesis using None by (simp add: touch_def)
next
  case (Some a)
  assume inv: "store_inv st"
  have in_st: "(key, a) \<in> set (artifacts st)"
    using Some by (simp add: resident_def map_of_SomeD)
  have d: "distinct (map fst (artifacts st))"
    and l: "list_all (\<lambda>(k, a). art_size a = length (payload a)) (artifacts st)"
    and t: "total_size st = sum_list (map (\<lambda>(k, a). art_size a) (artifacts st))"
    using inv by (simp_all add: store_inv_def)
  have le: "art_size a \<le> sum_list (map (\<lambda>(k, a). art_size a) (artifacts st))"
    using in_st by (rule size_le_sum)
  have "art_size a = length (payload a)"
    using l in_st by (auto simp: list_all_iff)
  then have "list_all (\<lambda>(k, a). art_size a = length (payload a))
      (AList.update key (a\<lparr>last_access := now\<rparr>) (artifacts st))"
    using l by (intro list_all_update) simp_all
  then show ?thesis
    using Some d t le sum_sizes_update_old [OF d in_st, of "a\<lparr>last_access := now\<rparr>"]
    by (simp add: touch_def store_inv_def distinct_update)
qed

lemma store_inv_store_of: "store_inv st \<Longrightarrow> st = store_of (artifacts st)"
  by (simp add: store_inv_def store_of_def)

lemma resident_store_of_None:
  "k \<notin> fst ` set xs \<Longrightarrow> resident (store_of xs) k = None"
  by (simp add: resident_def store_of_def map_of_eq_None_iff)

lemma resident_store_of_Some:
  "distinct (map fst xs) \<Longrightarrow> (k, a) \<in> set xs \<Longrightarrow> resident (store_of xs) k = Some a"
  by (simp add: resident_def store_of_def)

lemma sum_sizes_remove:
  "distinct (map fst xs) \<Longrightarrow> (k, a) \<in> set xs \<Longrightarrow>
   sum_list (map (\<lambda>(k, a). art_size a) (filter (\<lambda>e. fst e \<noteq> k) xs)) =
   sum_list (map (\<lambda>(k, a). art_size a) xs) - art_size a"
proof (induction xs)
  case Nil
  then show ?case by simp
next
  case (Cons x xs)
  show ?case
  proof (cases "x = (k, a)")
    case True
    then have "k \<notin> fst ` set xs" using Cons.prems by auto
    then have "filter (\<lambda>e. fst e \<noteq> k) xs = xs"
      by (auto simp: filter_id_conv)
    then show ?thesis using True by simp
  next
    case False
    then have in_xs: "(k, a) \<in> set xs" using Cons.prems by auto
    then have "fst x \<noteq> k" using Cons.prems by (cases x) force
    moreover have "art_size a \<le> sum_list (map (\<lambda>(k, a). art_size a) xs)"
      using in_xs by (rule size_le_sum)
    ultimately show ?thesis using Cons in_xs by (cases x) auto
  qed
qed

lemma Delete_absent: "resident st key = None \<Longrightarrow> Delete io_ok key st = Inr st"
  by (simp add: Delete_def)

lemma Delete_removes: "Delete io_ok key st = Inr st' \<Longrightarrow> resident st' key = None"
  by (auto simp: Delete_def resident_def delete_conv' split: option.splits if_splits)

lemma Delete_succeeds: "\<exists>st'. Delete True key st = Inr st'"
  by (simp add: Delete_def split: option.splits)

lemma Delete_store_of:
  assumes "distinct (map fst xs)"
  shows "Delete True k (store_of xs) = Inr (store_of (filter (\<lambda>e. fst e \<noteq> k) xs))"
proof (cases "k \<in> fst ` set xs")
  case False
  then have "filter (\<lambda>e. fst e \<noteq> k) xs = xs"
    by (auto simp: filter_id_conv)
  then show ?thesis
    using resident_store_of_None [OF False] by (simp add: Delete_def)
next
  case True
  then obtain a where a: "(k, a) \<in> set xs" by auto
  have d: "AList.delete k xs = filter (\<lambda>e. fst e \<noteq> k) xs"
    by (auto simp: AList.delete_eq intro: filter_cong)
  show ?thesis
    using resident_store_of_Some [OF assms a] sum_sizes_remove [OF assms a]
    by (simp add: Delete_def store_of_def d)
qed

lemma store_inv_filter:
  "store_inv st \<Longrightarrow> store_inv (store_of (filter P (artifacts st)))"
  by (auto simp: store_inv_def store_of_def distinct_map_filter list_all_iff)

lemma store_inv_Delete:
  assumes "store_inv st" and "Delete io_ok key st = Inr st'"
  shows "store_inv st'"
proof (cases "resident st key")
  case None
  then show ?thesis using assms by (simp add: Delete_def)
next
  case (Some a)
  then have io: "io_ok" using assms(2) by (auto simp: Delete_def split: if_splits)
  have d: "distinct (map fst (artifacts st))" using assms(1) by (simp add: store_inv_def)
  have "Delete True key st = Inr (store_of (filter (\<lambda>e. fst e \<noteq> key) (artifacts st)))"
    using Delete_store_of [OF d, of key] store_inv_store_of [OF assms(1)] by simp
  then have "st' = store_of (filter (\<lambda>e. fst e \<noteq> key) (artifacts st))"
    using assms(2) io by simp
  then show ?thesis using store_inv_filter [OF assms(1)] by simp
qed

lemma store_inv_evict_one: "store_inv st \<Longrightarrow> store_inv (evict_one locked fails key st)"
  using store_inv_Delete [of st "\<not> fails key" key]
  by (auto simp: evict_one_def split: sum.splits)

lemma Get_Put_same:
  "Put io now key bytes st = Inr st' \<Longrightarrow> Get key st' = Inr bytes"
  by (auto simp: Put_def Get_def resident_def update_conv' Let_def split: if_splits)

lemma Get_Put_other:
  "Put io now k bytes st = Inr st' \<Longrightarrow> k \<noteq> key \<Longrightarrow> Get key st' = Get key st"
  by (auto simp: Put_def Get_def resident_def update_conv' Let_def split: if_splits)

lemma Put_True_ex: "\<exists>st'. Put True now key bytes st = Inr st'"
  by (simp add: Put_def Let_def)

subsection \<open>Deleting twice\<close>

text \<open>
  Claim C6. \<open>Delete\<close> of a key that is not resident changes nothing and reports
  success, whatever the state of the underlying I/O. \<open>Delete\<close> is idempotent: when a
  first \<open>Delete\<close> of a key has succeeded, as it does on every store unless the I/O
  fails, the key is gone and a second \<open>Delete\<close> of it succeeds as well and returns
  the very state the first one left.
\<close>

theorem delete_is_idempotent:
  "(resident st key = None \<longrightarrow> Delete io_ok key st = Inr st) \<and>
   (\<exists>st'. Delete True key st = Inr st') \<and>
   (Delete io_ok key st = Inr st' \<longrightarrow>
      Delete io_ok' key st' = Inr st' \<and> resident st' key = None)"
  using Delete_absent [of st key io_ok] Delete_succeeds [of key st]
    Delete_removes [of io_ok key st st'] Delete_absent [of st' key io_ok']
  by auto

theorem delete_is_idempotent_witness:
  "resident two_artifacts 30 = None \<and>
   Delete False 30 two_artifacts = Inr two_artifacts \<and>
   Delete True 10 two_artifacts = Inr newer_artifact \<and>
   Delete False 10 newer_artifact = Inr newer_artifact"
proof -
  have a: "resident two_artifacts 30 = None"
    by (simp add: resident_def two_artifacts_def)
  have d: "Delete True 10 two_artifacts = Inr newer_artifact"
    by (simp add: Delete_def two_artifacts_def newer_artifact_def resident_def AList.delete_eq)
  from delete_is_idempotent [of two_artifacts 30 False two_artifacts False]
    delete_is_idempotent [of two_artifacts 10 True newer_artifact False] a d
  show ?thesis by simp
qed

subsection \<open>The stores of the cluster\<close>

lemma Get_put_at:
  "Get key (stores (put_at n now k bytes cl) m) =
     (if m = n \<and> k = key then Inr bytes else Get key (stores cl m))"
proof -
  obtain st' where p: "Put True now k bytes (stores cl n) = Inr st'"
    using Put_True_ex [of now k bytes "stores cl n"] by blast
  show ?thesis
    using Get_Put_same [OF p] Get_Put_other [OF p, of key]
    by (auto simp: put_at_def p)
qed

lemma Get_replicate_other:
  "k \<noteq> key \<Longrightarrow> Get key (stores (replicate_to nw now k bytes ns cl) m) = Get key (stores cl m)"
  by (induction ns arbitrary: cl) (simp_all add: Get_put_at)

lemma Get_replicate_same:
  "Get key (stores (replicate_to nw now key bytes ns cl) m) = Inr bytes \<or>
   Get key (stores (replicate_to nw now key bytes ns cl) m) = Get key (stores cl m)"
proof (induction ns arbitrary: cl)
  case Nil
  then show ?case by simp
next
  case (Cons n ns)
  show ?case
    using Cons [of "put_at n now key bytes cl"] Cons [of cl]
    by (auto simp: Get_put_at split: if_splits)
qed

lemma Get_replicate_keeps:
  "Get key (stores cl m) = Inr bytes \<Longrightarrow>
   Get key (stores (replicate_to nw now key bytes ns cl) m) = Inr bytes"
  using Get_replicate_same [of key nw now bytes ns cl m] by auto

lemma Store_other_key:
  assumes "Store nw r now n cap k bytes cl = Inr cl'" and "k \<noteq> key"
  shows "Get key (stores cl' m) = Get key (stores cl m)"
proof (cases cap)
  case NoCap
  then show ?thesis using assms by (simp add: Store_def)
next
  case Read
  then show ?thesis using assms by (simp add: Store_def)
next
  case Write
  show ?thesis
  proof (cases "serves_locally r n k")
    case True
    then obtain st where p: "Put (disk_ok nw) now k bytes (stores cl n) = Inr st"
      and c: "cl' = replicate_to nw now k bytes (removeAll n (owners r k))
                (cl\<lparr>stores := (stores cl)(n := st)\<rparr>)"
      using assms(1) Write by (auto simp: Store_def split: sum.splits)
    show ?thesis
      using Get_Put_other [OF p assms(2)] by (simp add: c Get_replicate_other [OF assms(2)])
  next
    case False
    show ?thesis
    proof (cases "peer_ok nw (hd (owners r k))")
      case True
      then have "cl' = replicate_to nw now k bytes (removeAll (hd (owners r k)) (owners r k))
                   (put_at (hd (owners r k)) now k bytes cl)"
        using assms(1) Write False by (simp add: Store_def)
      then show ?thesis
        using assms(2) by (simp add: Get_replicate_other Get_put_at)
    next
      case nok: False
      then obtain st where p: "Put (disk_ok nw) now k bytes (stores cl n) = Inr st"
        and c: "cl' = cl\<lparr>stores := (stores cl)(n := st), repair := (n, k) # repair cl\<rparr>"
        using assms(1) Write False by (auto simp: Store_def split: sum.splits)
      show ?thesis
        using Get_Put_other [OF p assms(2)] by (simp add: c)
    qed
  qed
qed

lemma run_stores_other_keys:
  "list_all (\<lambda>q. rq_key q \<noteq> key) qs \<Longrightarrow>
   Get key (stores (run_stores qs cl) m) = Get key (stores cl m)"
proof (induction qs arbitrary: cl)
  case Nil
  then show ?case by simp
next
  case (Cons q qs)
  then have k: "rq_key q \<noteq> key" and rest: "list_all (\<lambda>q. rq_key q \<noteq> key) qs"
    by simp_all
  show ?case
  proof (cases "Store (rq_net q) (rq_routing q) (rq_now q) (rq_node q) (rq_cap q) (rq_key q)
               (rq_payload q) cl")
    case (Inl e)
    then show ?thesis using Cons.IH [OF rest] by simp
  next
    case (Inr cl')
    then show ?thesis
      using Cons.IH [OF rest, of cl'] Store_other_key [OF Inr k, of m] by simp
  qed
qed

text \<open>Where a successful \<open>Store\<close> leaves the payload.\<close>

lemma Store_local:
  assumes "Store nw r now self cap key bytes cl = Inr cl'"
    and "serves_locally r self key \<or> \<not> peer_ok nw (hd (owners r key))"
  shows "Get key (stores cl' self) = Inr bytes"
proof -
  have w: "cap = Write" using assms(1) by (cases cap) (simp_all add: Store_def)
  show ?thesis
  proof (cases "serves_locally r self key")
    case True
    then obtain st where p: "Put (disk_ok nw) now key bytes (stores cl self) = Inr st"
      and c: "cl' = replicate_to nw now key bytes (removeAll self (owners r key))
                (cl\<lparr>stores := (stores cl)(self := st)\<rparr>)"
      using assms(1) w by (auto simp: Store_def split: sum.splits)
    show ?thesis
      unfolding c using Get_Put_same [OF p] by (intro Get_replicate_keeps) simp
  next
    case False
    then have nok: "\<not> peer_ok nw (hd (owners r key))" using assms(2) by simp
    then obtain st where p: "Put (disk_ok nw) now key bytes (stores cl self) = Inr st"
      and c: "cl' = cl\<lparr>stores := (stores cl)(self := st), repair := (self, key) # repair cl\<rparr>"
      using assms(1) w False by (auto simp: Store_def split: sum.splits)
    show ?thesis
      using Get_Put_same [OF p] by (simp add: c)
  qed
qed

lemma Store_forwarded:
  assumes "Store nw r now self cap key bytes cl = Inr cl'"
    and "\<not> serves_locally r self key" and "peer_ok nw (hd (owners r key))"
  shows "Get key (stores cl' (hd (owners r key))) = Inr bytes"
    and "Get key (stores cl' self) = Inr bytes \<or> Get key (stores cl' self) = Get key (stores cl self)"
proof -
  have w: "cap = Write" using assms(1) by (cases cap) (simp_all add: Store_def)
  have c: "cl' = replicate_to nw now key bytes (removeAll (hd (owners r key)) (owners r key))
                   (put_at (hd (owners r key)) now key bytes cl)"
    using assms w by (simp add: Store_def)
  show "Get key (stores cl' (hd (owners r key))) = Inr bytes"
    unfolding c by (intro Get_replicate_keeps) (simp add: Get_put_at)
  have "self \<noteq> hd (owners r key)"
    using assms(2) by (auto simp: serves_locally_def)
  then have "Get key (stores (put_at (hd (owners r key)) now key bytes cl) self) = Get key (stores cl self)"
    by (simp add: Get_put_at)
  then show "Get key (stores cl' self) = Inr bytes \<or> Get key (stores cl' self) = Get key (stores cl self)"
    unfolding c
    using Get_replicate_same [of key nw now bytes _ "put_at (hd (owners r key)) now key bytes cl" self]
    by auto
qed

lemma query_owners_first:
  "ns \<noteq> [] \<Longrightarrow> peer_ok nw (hd ns) \<Longrightarrow> Get key (stores cl (hd ns)) = Inr bytes \<Longrightarrow>
   query_owners nw key ns cl = Inr bytes"
  by (cases ns) simp_all

lemma Retrieve_local_hit:
  "cap \<noteq> NoCap \<Longrightarrow> Get key (stores cl self) = Inr bytes \<Longrightarrow> Retrieve nw r self cap key cl = Inr bytes"
  by (cases cap) (simp_all add: Retrieve_def)

lemma Retrieve_local_miss:
  "cap \<noteq> NoCap \<Longrightarrow> Get key (stores cl self) = Inl e \<Longrightarrow>
   Retrieve nw r self cap key cl = query_owners nw key (owners r key) cl"
  by (cases cap) (simp_all add: Retrieve_def)

lemmas cl_defs = Store_def Retrieve_def store_then_retrieve_def serves_locally_def Put_def Get_def
  resident_def put_at_def all_ok_def no_artifacts_def ring_a_def ring_b_def first_store_def
  other_store_def empty_store_def Let_def

subsection \<open>Store, then Retrieve\<close>

text \<open>
  Claim C1, as the design has it. Let a \<open>Store\<close> of a payload under a key succeed at
  a node, let other clients' \<open>Store\<close> requests for other keys be served in between,
  at any nodes and under any ring snapshots, and let \<open>Retrieve\<close> of the key follow at
  the same node under the same ring snapshot, by a client that may read. The answer is
  exactly the payload, provided the write went into the node's own store (the node serves
  the key locally, or its forward to the primary owner failed), or the node held no copy
  of the key of its own and the primary owner that took the forwarded write answers.
\<close>

theorem store_then_retrieve_returns_payload:
  assumes "Store nw r now self cap key bytes cl = Inr cl1"
    and "list_all (\<lambda>q. rq_key q \<noteq> key) others"
    and "cap' \<noteq> NoCap"
    and "serves_locally r self key \<or> \<not> peer_ok nw (hd (owners r key)) \<or>
         (resident (stores cl self) key = None \<and> peer_ok nw' (hd (owners r key)))"
  shows "Retrieve nw' r self cap' key (run_stores others cl1) = Inr bytes"
proof -
  let ?cl2 = "run_stores others cl1"
  have same: "Get key (stores ?cl2 m) = Get key (stores cl1 m)" for m
    by (rule run_stores_other_keys [OF assms(2)])
  show ?thesis
  proof (cases "serves_locally r self key \<or> \<not> peer_ok nw (hd (owners r key))")
    case True
    then have "Get key (stores cl1 self) = Inr bytes"
      by (rule Store_local [OF assms(1)])
    then have "Get key (stores ?cl2 self) = Inr bytes" by (simp add: same)
    then show ?thesis by (rule Retrieve_local_hit [OF assms(3)])
  next
    case False
    then have fw: "\<not> serves_locally r self key" "peer_ok nw (hd (owners r key))" by simp_all
    with assms(4) have none: "resident (stores cl self) key = None"
      and ok': "peer_ok nw' (hd (owners r key))" by simp_all
    have ne: "owners r key \<noteq> []" using fw(1) by (simp add: serves_locally_def)
    have prim: "Get key (stores cl1 (hd (owners r key))) = Inr bytes"
      by (rule Store_forwarded(1) [OF assms(1) fw])
    have "Get key (stores cl self) = Inl NotFound"
      using none by (simp add: Get_def)
    then consider "Get key (stores cl1 self) = Inr bytes" | "Get key (stores cl1 self) = Inl NotFound"
      using Store_forwarded(2) [OF assms(1) fw] by auto
    then show ?thesis
    proof cases
      case 1
      then have "Get key (stores ?cl2 self) = Inr bytes" by (simp add: same)
      then show ?thesis by (rule Retrieve_local_hit [OF assms(3)])
    next
      case 2
      then have "Get key (stores ?cl2 self) = Inl NotFound" by (simp add: same)
      then have "Retrieve nw' r self cap' key ?cl2 = query_owners nw' key (owners r key) ?cl2"
        by (rule Retrieve_local_miss [OF assms(3)])
      also have "\<dots> = Inr bytes"
        by (rule query_owners_first [OF ne ok']) (simp add: same prim)
      finally show ?thesis .
    qed
  qed
qed

theorem store_then_retrieve_returns_payload_witness:
  "Store all_ok ring_b 2 ''a'' Write 7 ''new'' no_artifacts =
     Inr (put_at ''b'' 2 7 ''new'' no_artifacts) \<and>
   rq_key other_store = 8 \<and>
   resident (stores no_artifacts ''a'') 7 = None \<and>
   peer_ok all_ok (hd (owners ring_b 7)) \<and>
   Retrieve all_ok ring_b ''a'' Read 7
     (run_stores [other_store] (put_at ''b'' 2 7 ''new'' no_artifacts)) = Inr ''new''"
proof -
  have s: "Store all_ok ring_b 2 ''a'' Write 7 ''new'' no_artifacts =
     Inr (put_at ''b'' 2 7 ''new'' no_artifacts)"
    by (simp add: Store_def serves_locally_def all_ok_def ring_b_def)
  have o: "list_all (\<lambda>q. rq_key q \<noteq> 7) [other_store]"
    by (simp add: other_store_def)
  have c: "Read \<noteq> NoCap" by simp
  have h: "serves_locally ring_b ''a'' 7 \<or> \<not> peer_ok all_ok (hd (owners ring_b 7)) \<or>
         (resident (stores no_artifacts ''a'') 7 = None \<and> peer_ok all_ok (hd (owners ring_b 7)))"
    by (simp add: no_artifacts_def empty_store_def resident_def all_ok_def)
  from store_then_retrieve_returns_payload [OF s o c h] s
  show ?thesis
    by (simp add: other_store_def no_artifacts_def empty_store_def resident_def all_ok_def)
qed

text \<open>
  Claim C1 as stated fails. Node \<open>a\<close> stores \<open>old\<close> under key 7 while it owns the
  key. The ring changes and node \<open>b\<close> becomes the owner. Node \<open>a\<close> now forwards
  the \<open>Store\<close> of \<open>new\<close> to \<open>b\<close>, keeps its own copy, and the \<open>Retrieve\<close>
  that follows at once tries the local store first: it returns \<open>old\<close>.
\<close>

theorem stale_local_copy_is_returned:
  "store_then_retrieve all_ok ring_b 2 ''a'' Write 7 ''new'' (run_stores [first_store] no_artifacts)
     = Inr ''old''"
  by (simp add: cl_defs)

subsection \<open>A cycle of the evictor without locks and failures\<close>

lemma evict_one_quiet:
  assumes "distinct (map fst xs)"
  shows "evict_one (\<lambda>k. False) (\<lambda>k. False) k (store_of xs) = store_of (filter (\<lambda>e. fst e \<noteq> k) xs)"
  by (simp add: evict_one_def Delete_store_of [OF assms])

lemma size_loop_done: "total_size st \<le> low \<Longrightarrow> size_loop locked fails low ks st = st"
  by (cases ks) simp_all

lemma size_loop_total:
  "distinct (map fst xs) \<Longrightarrow> fst ` set xs \<subseteq> set ks \<Longrightarrow>
   total_size (size_loop (\<lambda>k. False) (\<lambda>k. False) low ks (store_of xs)) \<le> low"
proof (induction ks arbitrary: xs)
  case Nil
  then show ?case by (simp add: store_of_def)
next
  case (Cons k ks)
  have "distinct (map fst (filter (\<lambda>e. fst e \<noteq> k) xs))"
    using Cons.prems(1) by (simp add: distinct_map_filter)
  moreover have "fst ` set (filter (\<lambda>e. fst e \<noteq> k) xs) \<subseteq> set ks"
    using Cons.prems(2) by auto
  ultimately show ?case
    using Cons.IH [of "filter (\<lambda>e. fst e \<noteq> k) xs"]
    by (simp add: evict_one_quiet [OF Cons.prems(1)])
qed

lemma size_loop_present:
  "distinct ks \<Longrightarrow> distinct (map fst xs) \<Longrightarrow>
   size_loop (\<lambda>k. False) (\<lambda>k. False) low ks (store_of xs) =
   size_loop (\<lambda>k. False) (\<lambda>k. False) low (filter (\<lambda>k. k \<in> fst ` set xs) ks) (store_of xs)"
proof (induction ks arbitrary: xs)
  case Nil
  then show ?case by simp
next
  case (Cons k ks)
  let ?xs' = "filter (\<lambda>e. fst e \<noteq> k) xs"
  show ?case
  proof (cases "total_size (store_of xs) \<le> low")
    case True
    then show ?thesis by (simp add: size_loop_done)
  next
    case False
    have d': "distinct (map fst ?xs')"
      using Cons.prems(2) by (simp add: distinct_map_filter)
    have dk: "distinct ks" and nk: "k \<notin> set ks" using Cons.prems(1) by simp_all
    have f: "filter (\<lambda>k. k \<in> fst ` set ?xs') ks = filter (\<lambda>k. k \<in> fst ` set xs) ks"
      using nk by (intro filter_cong) force+
    have "size_loop (\<lambda>k. False) (\<lambda>k. False) low ks (store_of ?xs') =
        size_loop (\<lambda>k. False) (\<lambda>k. False) low (filter (\<lambda>k. k \<in> fst ` set ?xs') ks) (store_of ?xs')"
      by (rule Cons.IH [OF dk d'])
    then have ih: "size_loop (\<lambda>k. False) (\<lambda>k. False) low ks (store_of ?xs') =
        size_loop (\<lambda>k. False) (\<lambda>k. False) low (filter (\<lambda>k. k \<in> fst ` set xs) ks) (store_of ?xs')"
      by (simp only: f)
    have step: "size_loop (\<lambda>k. False) (\<lambda>k. False) low (k # ks) (store_of xs) =
        size_loop (\<lambda>k. False) (\<lambda>k. False) low (filter (\<lambda>k. k \<in> fst ` set xs) ks) (store_of ?xs')"
      using False ih by (simp add: evict_one_quiet [OF Cons.prems(2)])
    show ?thesis
    proof (cases "k \<in> fst ` set xs")
      case True
      then show ?thesis
        using False step by (simp add: evict_one_quiet [OF Cons.prems(2)])
    next
      case absent: False
      then have "?xs' = xs" by (auto simp: filter_id_conv)
      then show ?thesis using absent step by simp
    qed
  qed
qed

lemma size_loop_prefix:
  "distinct (map fst cs) \<Longrightarrow> set cs \<subseteq> set xs \<Longrightarrow> distinct (map fst xs) \<Longrightarrow>
   size_loop (\<lambda>k. False) (\<lambda>k. False) low (map fst cs) (store_of xs) =
   store_of (filter (\<lambda>e. fst e \<notin> set (map fst
      (take (evicted_count low (total_size (store_of xs)) (map (\<lambda>(k, a). art_size a) cs)) cs))) xs)"
proof (induction cs arbitrary: xs)
  case Nil
  then show ?case by simp
next
  case (Cons c cs)
  obtain k a where c: "c = (k, a)" by (cases c)
  let ?xs' = "filter (\<lambda>e. fst e \<noteq> k) xs"
  show ?case
  proof (cases "total_size (store_of xs) \<le> low")
    case True
    then show ?thesis by simp
  next
    case False
    have in_xs: "(k, a) \<in> set xs" using Cons.prems(2) c by simp
    have d': "distinct (map fst ?xs')"
      using Cons.prems(3) by (simp add: distinct_map_filter)
    have dc: "distinct (map fst cs)" and kc: "k \<notin> fst ` set cs"
      using Cons.prems(1) c by simp_all
    have sub: "set cs \<subseteq> set ?xs'"
      using Cons.prems(2) kc by force
    have t: "total_size (store_of ?xs') = total_size (store_of xs) - art_size a"
      using sum_sizes_remove [OF Cons.prems(3) in_xs] by (simp add: store_of_def)
    have "size_loop (\<lambda>k. False) (\<lambda>k. False) low (map fst (c # cs)) (store_of xs) =
          size_loop (\<lambda>k. False) (\<lambda>k. False) low (map fst cs) (store_of ?xs')"
      using False c by (simp add: evict_one_quiet [OF Cons.prems(3)])
    also have "\<dots> = store_of (filter (\<lambda>e. fst e \<notin> set (map fst
        (take (evicted_count low (total_size (store_of ?xs')) (map (\<lambda>(k, a). art_size a) cs)) cs))) ?xs')"
      by (rule Cons.IH [OF dc sub d'])
    also have "\<dots> = store_of (filter (\<lambda>e. fst e \<notin> set (map fst
        (take (evicted_count low (total_size (store_of xs)) (map (\<lambda>(k, a). art_size a) (c # cs))) (c # cs)))) xs)"
      using False c by (simp add: t conj_commute)
    finally show ?thesis .
  qed
qed

lemma evicted_count_needed:
  "m < evicted_count low agg ss \<Longrightarrow> low < agg - sum_list (take m ss)"
proof (induction ss arbitrary: agg m)
  case Nil
  then show ?case by simp
next
  case (Cons s ss)
  then have big: "low < agg" by (simp split: if_splits)
  show ?case
  proof (cases m)
    case 0
    then show ?thesis using big by simp
  next
    case (Suc m')
    then have "m' < evicted_count low (agg - s) ss"
      using Cons.prems by (simp split: if_splits)
    then have "low < agg - s - sum_list (take m' ss)" by (rule Cons.IH)
    then show ?thesis using Suc by simp
  qed
qed

lemma evicted_count_le: "evicted_count low agg ss \<le> length ss"
  by (induction ss arbitrary: agg) auto

lemma age_pass_quiet:
  "distinct (map fst xs) \<Longrightarrow>
   age_pass (\<lambda>k. False) (\<lambda>k. False) now age cs (store_of xs) =
   store_of (filter (\<lambda>e. fst e \<notin> fst ` {c \<in> set cs. last_access (snd c) + age < now}) xs)"
proof (induction cs arbitrary: xs)
  case Nil
  then show ?case by simp
next
  case (Cons c cs)
  obtain k a where c: "c = (k, a)" by (cases c)
  let ?xs' = "filter (\<lambda>e. fst e \<noteq> k) xs"
  have d': "distinct (map fst ?xs')"
    using Cons.prems by (simp add: distinct_map_filter)
  show ?case
  proof (cases "last_access a + age < now")
    case True
    have "age_pass (\<lambda>k. False) (\<lambda>k. False) now age (c # cs) (store_of xs) =
          age_pass (\<lambda>k. False) (\<lambda>k. False) now age cs (store_of ?xs')"
      using True c by (simp add: evict_one_quiet [OF Cons.prems])
    also have "\<dots> = store_of (filter (\<lambda>e. fst e \<notin> fst ` {c \<in> set cs. last_access (snd c) + age < now}) ?xs')"
      by (rule Cons.IH [OF d'])
    also have "filter (\<lambda>e. fst e \<notin> fst ` {c \<in> set cs. last_access (snd c) + age < now}) ?xs' =
               filter (\<lambda>e. fst e \<notin> fst ` {c' \<in> set (c # cs). last_access (snd c') + age < now}) xs"
    proof -
      have "fst ` {c' \<in> set (c # cs). last_access (snd c') + age < now} =
            insert k (fst ` {c \<in> set cs. last_access (snd c) + age < now})"
        using True c by force
      then show ?thesis by (auto intro: filter_cong)
    qed
    finally show ?thesis .
  next
    case False
    have "age_pass (\<lambda>k. False) (\<lambda>k. False) now age (c # cs) (store_of xs) =
          age_pass (\<lambda>k. False) (\<lambda>k. False) now age cs (store_of xs)"
      using False c by simp
    also have "\<dots> = store_of (filter (\<lambda>e. fst e \<notin> fst ` {c \<in> set cs. last_access (snd c) + age < now}) xs)"
      by (rule Cons.IH [OF Cons.prems])
    also have "filter (\<lambda>e. fst e \<notin> fst ` {c \<in> set cs. last_access (snd c) + age < now}) xs =
               filter (\<lambda>e. fst e \<notin> fst ` {c' \<in> set (c # cs). last_access (snd c') + age < now}) xs"
    proof -
      have "fst ` {c' \<in> set (c # cs). last_access (snd c') + age < now} =
            fst ` {c \<in> set cs. last_access (snd c) + age < now}"
        using False c by auto
      then show ?thesis by simp
    qed
    finally show ?thesis .
  qed
qed

lemma distinct_keys_lru: "distinct (map fst xs) \<Longrightarrow> distinct (map fst (lru_order xs))"
  by (simp add: lru_order_def distinct_map)

lemma set_lru: "set (lru_order xs) = set xs"
  by (simp add: lru_order_def)

lemma lru_sorted: "sorted (map (\<lambda>(k, a). (last_access a, k)) (lru_order xs))"
  by (simp add: lru_order_def)

lemma lru_filter_keys:
  assumes "distinct (map fst xs)"
  shows "filter (\<lambda>k. k \<in> fst ` set (filter (\<lambda>e. P (fst e)) xs)) (map fst (lru_order xs)) =
         map fst (lru_order (filter (\<lambda>e. P (fst e)) xs))"
proof -
  have "filter (\<lambda>k. k \<in> fst ` set (filter (\<lambda>e. P (fst e)) xs)) (map fst (lru_order xs)) =
        map fst (filter (\<lambda>e. fst e \<in> fst ` set (filter (\<lambda>e. P (fst e)) xs)) (lru_order xs))"
    by (simp add: filter_map comp_def)
  also have "filter (\<lambda>e. fst e \<in> fst ` set (filter (\<lambda>e. P (fst e)) xs)) (lru_order xs) =
             filter (\<lambda>e. P (fst e)) (lru_order xs)"
    by (rule filter_cong) (auto simp: set_lru)
  also have "\<dots> = lru_order (filter (\<lambda>e. P (fst e)) xs)"
    by (simp add: lru_order_def filter_sort)
  finally show ?thesis .
qed


text \<open>The quiet cycle, step by step.\<close>

lemma quiet_cycle:
  fixes st :: "'k::linorder store"
  assumes inv: "store_inv st"
    and st1: "st1 = age_pass (\<lambda>k. False) (\<lambda>k. False) now (max_artifact_age cfg) (artifacts st) st"
    and high: "high_water_mark cfg < total_size st1"
  shows "store_inv st1"
    and "evict_cycle (\<lambda>k. False) (\<lambda>k. False) cfg now st =
           store_of (filter (\<lambda>e. fst e \<notin> set (evicted cfg st1)) (artifacts st1))"
    and "total_size (evict_cycle (\<lambda>k. False) (\<lambda>k. False) cfg now st) \<le> low_water_mark cfg"
proof -
  let ?xs = "artifacts st"
  let ?aged = "fst ` {c \<in> set ?xs. last_access (snd c) + max_artifact_age cfg < now}"
  let ?xs1 = "filter (\<lambda>e. fst e \<notin> ?aged) ?xs"
  let ?low = "low_water_mark cfg"
  have d: "distinct (map fst ?xs)" using inv by (simp add: store_inv_def)
  have st: "st = store_of ?xs" by (rule store_inv_store_of [OF inv])
  have s1: "st1 = store_of ?xs1"
    using age_pass_quiet [OF d, of now "max_artifact_age cfg" ?xs] st st1 by simp
  show inv1: "store_inv st1"
    unfolding s1 by (rule store_inv_filter [OF inv])
  have a1: "artifacts st1 = ?xs1" by (simp add: s1 store_of_def)
  have d1: "distinct (map fst ?xs1)" using d by (simp add: distinct_map_filter)
  have dl: "distinct (map fst (lru_order ?xs))" by (rule distinct_keys_lru [OF d])
  have dl1: "distinct (map fst (lru_order ?xs1))" by (rule distinct_keys_lru [OF d1])
  have cyc: "evict_cycle (\<lambda>k. False) (\<lambda>k. False) cfg now st =
      size_loop (\<lambda>k. False) (\<lambda>k. False) ?low (map fst (lru_order ?xs)) (store_of ?xs1)"
  proof -
    have "evict_cycle (\<lambda>k. False) (\<lambda>k. False) cfg now st =
        size_pass (\<lambda>k. False) (\<lambda>k. False) cfg ?xs st1"
      by (simp add: evict_cycle_def Let_def st1)
    also have "\<dots> = size_loop (\<lambda>k. False) (\<lambda>k. False) ?low (map fst (lru_order ?xs)) st1"
      using high by (simp add: size_pass_def)
    finally show ?thesis by (simp only: s1)
  qed
  also have "\<dots> = size_loop (\<lambda>k. False) (\<lambda>k. False) ?low
      (filter (\<lambda>k. k \<in> fst ` set ?xs1) (map fst (lru_order ?xs))) (store_of ?xs1)"
    by (rule size_loop_present [OF dl d1])
  also have "filter (\<lambda>k. k \<in> fst ` set ?xs1) (map fst (lru_order ?xs)) = map fst (lru_order ?xs1)"
    by (rule lru_filter_keys [OF d])
  also have "size_loop (\<lambda>k. False) (\<lambda>k. False) ?low (map fst (lru_order ?xs1)) (store_of ?xs1) =
      store_of (filter (\<lambda>e. fst e \<notin> set (map fst
        (take (evicted_count ?low (total_size (store_of ?xs1))
                 (map (\<lambda>(k, a). art_size a) (lru_order ?xs1))) (lru_order ?xs1)))) ?xs1)"
    by (rule size_loop_prefix [OF dl1 _ d1]) (simp add: set_lru)
  finally show "evict_cycle (\<lambda>k. False) (\<lambda>k. False) cfg now st =
           store_of (filter (\<lambda>e. fst e \<notin> set (evicted cfg st1)) (artifacts st1))"
    by (simp add: evicted_def a1 s1 [symmetric])
  have "fst ` set ?xs1 \<subseteq> set (map fst (lru_order ?xs))"
    by (auto simp: set_lru)
  then show "total_size (evict_cycle (\<lambda>k. False) (\<lambda>k. False) cfg now st) \<le> low_water_mark cfg"
    unfolding cyc by (rule size_loop_total [OF d1])
qed

lemmas ev_defs = evict_cycle_def size_pass_def lru_order_def two_artifacts_def marks_def
  tight_marks_def evict_one_def Delete_def resident_def AList.delete_eq evicted_def store_inv_def

subsection \<open>The size pass\<close>

text \<open>
  Claim C5, as the design has it. Take a store that satisfies the invariant of the data
  model and a cycle during which no lock is held by a \<open>Put\<close> in flight and no
  deletion fails. If the aggregate size exceeds the high water mark when the size pass
  starts, that is after the age pass, then after the cycle the aggregate size is at or
  below the low water mark, and the size pass has removed exactly the artifacts
  \<open>evicted\<close>: the first ones in the order of ascending last access, ties broken by
  key, as many as are needed and no more, since with any fewer of them the aggregate size
  would still be above the low water mark.
\<close>

theorem size_pass_evicts_least_recently_used:
  fixes st :: "'k::linorder store"
  assumes "store_inv st"
    and "st1 = age_pass (\<lambda>k. False) (\<lambda>k. False) now (max_artifact_age cfg) (artifacts st) st"
    and "st2 = evict_cycle (\<lambda>k. False) (\<lambda>k. False) cfg now st"
    and "high_water_mark cfg < total_size st1"
  shows "total_size st2 \<le> low_water_mark cfg \<and>
         store_inv st2 \<and>
         artifacts st2 = filter (\<lambda>e. fst e \<notin> set (evicted cfg st1)) (artifacts st1) \<and>
         evicted cfg st1 = take (length (evicted cfg st1)) (map fst (lru_order (artifacts st1))) \<and>
         sorted (map (\<lambda>(k, a). (last_access a, k)) (lru_order (artifacts st1))) \<and>
         (\<forall>m < length (evicted cfg st1).
            low_water_mark cfg <
              total_size st1 - sum_list (take m (map (\<lambda>(k, a). art_size a) (lru_order (artifacts st1)))))"
proof -
  note q = quiet_cycle [OF assms(1,2,4)]
  let ?cs = "lru_order (artifacts st1)"
  let ?n = "evicted_count (low_water_mark cfg) (total_size st1) (map (\<lambda>(k, a). art_size a) ?cs)"
  have ev: "evicted cfg st1 = map fst (take ?n ?cs)" by (simp add: evicted_def)
  have n: "?n \<le> length ?cs"
    using evicted_count_le [of "low_water_mark cfg" "total_size st1" "map (\<lambda>(k, a). art_size a) ?cs"]
    by simp
  then have len: "length (evicted cfg st1) = ?n" by (simp add: ev)
  have t: "total_size st2 \<le> low_water_mark cfg" using q(3) assms(3) by simp
  have i: "store_inv st2"
    unfolding assms(3) q(2) by (rule store_inv_filter [OF q(1)])
  have a: "artifacts st2 = filter (\<lambda>e. fst e \<notin> set (evicted cfg st1)) (artifacts st1)"
    unfolding assms(3) q(2) by (simp add: store_of_def)
  have p: "evicted cfg st1 = take (length (evicted cfg st1)) (map fst ?cs)"
    by (simp add: len) (simp add: ev take_map)
  have m: "\<forall>m < length (evicted cfg st1).
            low_water_mark cfg <
              total_size st1 - sum_list (take m (map (\<lambda>(k, a). art_size a) ?cs))"
    unfolding len using evicted_count_needed by blast
  from t i a p lru_sorted [of "artifacts st1"] m show ?thesis by blast
qed

theorem size_pass_evicts_least_recently_used_witness:
  "store_inv two_artifacts \<and>
   high_water_mark marks <
     total_size (age_pass (\<lambda>k. False) (\<lambda>k. False) 50 (max_artifact_age marks)
                   (artifacts two_artifacts) two_artifacts) \<and>
   evicted marks two_artifacts = [10] \<and>
   evict_cycle (\<lambda>k. False) (\<lambda>k. False) marks 50 two_artifacts = newer_artifact"
  using size_pass_evicts_least_recently_used [of two_artifacts
      "age_pass (\<lambda>k. False) (\<lambda>k. False) 50 (max_artifact_age marks) (artifacts two_artifacts) two_artifacts"
      50 marks "evict_cycle (\<lambda>k. False) (\<lambda>k. False) marks 50 two_artifacts"]
  by (simp add: ev_defs newer_artifact_def)

text \<open>
  Claim C5 as stated fails. The least recently used artifact, key 10, has its lock held
  by a \<open>Put\<close> in flight and is skipped; the size pass removes key 20, which was used
  later, and ends with an aggregate size of 2 above a low water mark of 1.
\<close>

theorem locked_artifact_is_skipped:
  "high_water_mark tight_marks <
     total_size (age_pass only_key_10 no_key 50 (max_artifact_age tight_marks)
                   (artifacts two_artifacts) two_artifacts) \<and>
   evict_cycle only_key_10 no_key tight_marks 50 two_artifacts = older_artifact \<and>
   low_water_mark tight_marks <
     total_size (evict_cycle only_key_10 no_key tight_marks 50 two_artifacts)"
  by (simp add: ev_defs older_artifact_def only_key_10_def no_key_def)

end
